theory Spec2Isabelle
  imports Main "HOL-Library.Word"
begin

section \<open>Python values, exceptions and the diagnostic log\<close>

text \<open>
  The development embeds parts of \<^verbatim>\<open>python/binaryview.py\<close>. A Python call either
  returns a value or raises; a raising call is \<open>Inl\<close> of the exception. The module
  \<^verbatim>\<open>log\<close> is a sink: \<^verbatim>\<open>log.log_error(traceback.format_exc())\<close> appends the
  exception being handled to the list of logged failures.
\<close>

type_synonym byte = "8 word"

datatype exc_kind =
    ValueError | IndexError | TypeError | AttributeError | SyntaxError
  | AssertionError | OSError | FileNotFoundError | RuntimeError | OverflowError | KeyError

datatype exc = Exc exc_kind string

type_synonym log = "exc list"

datatype pyobj =
    PyBytes "byte list" | PyByteArray "byte list" | PyStr string | PyInt int | PyBool bool
  | PyNone

text \<open>\<^verbatim>\<open>isinstance(data, bytes) or isinstance(data, bytearray) or isinstance(data, str)\<close>\<close>

fun is_bytes_bytearray_or_str :: "pyobj \<Rightarrow> bool" where
  "is_bytes_bytearray_or_str (PyBytes b) = True"
| "is_bytes_bytearray_or_str (PyByteArray b) = True"
| "is_bytes_bytearray_or_str (PyStr s) = True"
| "is_bytes_bytearray_or_str (PyInt i) = False"
| "is_bytes_bytearray_or_str (PyBool t) = False"
| "is_bytes_bytearray_or_str PyNone = False"

text \<open>
  Modelled from the spec: \<^verbatim>\<open>databuffer.DataBuffer\<close> is not part of the sources; it is
  the byte payload handed to the storage accessor (``\<^verbatim>\<open>write(offset,data)\<close>''): the bytes of a
  bytes or bytearray value, the character codes of a str.
\<close>

fun DataBuffer :: "pyobj \<Rightarrow> byte list" where
  "DataBuffer (PyBytes b) = b"
| "DataBuffer (PyByteArray b) = b"
| "DataBuffer (PyStr s) = map (\<lambda>c. of_nat (of_char c)) s"
| "DataBuffer (PyInt i) = []"
| "DataBuffer (PyBool t) = []"
| "DataBuffer PyNone = []"

section \<open>Backend hooks of a custom BinaryView\<close>

text \<open>
  A custom view overrides \<^verbatim>\<open>perform_*\<close> methods; the base class gives each a default.
  The defaults are the definitions below. Where a default calls another method of
  \<^verbatim>\<open>self\<close>, that method is a parameter, so that an override of it is seen.
\<close>

definition perform_insert :: "int \<Rightarrow> byte list \<Rightarrow> exc + int" where
  "perform_insert addr data = Inr 0"

definition perform_remove :: "int \<Rightarrow> int \<Rightarrow> exc + int" where
  "perform_remove addr len = Inr 0"



text \<open>
  The callbacks registered with the core (\<^verbatim>\<open>_insert\<close>, \<^verbatim>\<open>_remove\<close>,
  \<^verbatim>\<open>_get_next_valid_offset\<close>): each runs the hook inside \<^verbatim>\<open>try\<close>, and on any
  exception logs it and returns the fallback (0, 0, the offset itself). The first
  argument is the hook of the view (\<^verbatim>\<open>self.perform_...\<close>), the result is the value
  returned to the core and the log.
\<close>

definition insert_cb :: "(int \<Rightarrow> byte list \<Rightarrow> exc + int) \<Rightarrow> log \<Rightarrow> int \<Rightarrow> byte list \<Rightarrow> int \<times> log" where
  "insert_cb self_perform_insert lg offset src =
     (case self_perform_insert offset src of
        Inr n \<Rightarrow> (n, lg)
      | Inl e \<Rightarrow> (0, lg @ [e]))"

definition remove_cb :: "(int \<Rightarrow> int \<Rightarrow> exc + int) \<Rightarrow> log \<Rightarrow> int \<Rightarrow> int \<Rightarrow> int \<times> log" where
  "remove_cb self_perform_remove lg offset len =
     (case self_perform_remove offset len of
        Inr n \<Rightarrow> (n, lg)
      | Inl e \<Rightarrow> (0, lg @ [e]))"


text \<open>
  Modelled from the spec: the core's \<^verbatim>\<open>BNInsertViewBuffer\<close> and
  \<^verbatim>\<open>BNRemoveViewData\<close> are not part of the sources. For a view backed by Python
  callbacks the address space map ``delegates physical I/O'' to the storage accessor:
  the request goes to the registered callback, and the count the callback reports is
  the count the core reports.
\<close>

definition BNInsertViewBuffer :: "(log \<Rightarrow> int \<Rightarrow> byte list \<Rightarrow> int \<times> log) \<Rightarrow> log \<Rightarrow> int \<Rightarrow> byte list \<Rightarrow> int \<times> log" where
  "BNInsertViewBuffer callback lg addr buf = callback lg addr buf"

definition BNRemoveViewData :: "(log \<Rightarrow> int \<Rightarrow> int \<Rightarrow> int \<times> log) \<Rightarrow> log \<Rightarrow> int \<Rightarrow> int \<Rightarrow> int \<times> log" where
  "BNRemoveViewData callback lg addr len = callback lg addr len"

text \<open>
  The public \<^verbatim>\<open>insert\<close> and \<^verbatim>\<open>remove\<close> of a view whose storage is the given
  pair of hooks. \<^verbatim>\<open>insert\<close> raises TypeError for data that is neither bytes,
  bytearray nor str, before the core is called.
\<close>

definition insert_view :: "(int \<Rightarrow> byte list \<Rightarrow> exc + int) \<Rightarrow> log \<Rightarrow> int \<Rightarrow> pyobj \<Rightarrow> exc + (int \<times> log)" where
  "insert_view self_perform_insert lg addr data =
     (if \<not> is_bytes_bytearray_or_str data
      then Inl (Exc TypeError ''Must be bytes, bytearray, or str'')
      else Inr (BNInsertViewBuffer (insert_cb self_perform_insert) lg addr (DataBuffer data)))"

definition remove_view :: "(int \<Rightarrow> int \<Rightarrow> exc + int) \<Rightarrow> log \<Rightarrow> int \<Rightarrow> int \<Rightarrow> exc + (int \<times> log)" where
  "remove_view self_perform_remove lg addr len =
     Inr (BNRemoveViewData (remove_cb self_perform_remove) lg addr len)"

section \<open>The address space as the spec describes it\<close>

text \<open>
  Spec, section 4.1: an address is valid iff it lies in some segment \<open>[vstart, vend)\<close>;
  \<^verbatim>\<open>get_next_valid_offset(addr)\<close> is the ``smallest valid address \<open>>= addr\<close>, or
  \<open>end\<close> if none''. These two definitions follow the spec's words; they are what the
  hook above is compared with.
\<close>

definition spec_is_valid_offset :: "(int \<times> int) list \<Rightarrow> int \<Rightarrow> bool" where
  "spec_is_valid_offset segs a = list_ex (\<lambda>(vstart, vend). vstart \<le> a \<and> a < vend) segs"


definition gap_segments :: "(int \<times> int) list" where
  "gap_segments = [(0x1000, 0x1010), (0x2000, 0x2010)]"

section \<open>Reading bytes: \<^verbatim>\<open>read\<close>, \<^verbatim>\<open>__len__\<close>, \<^verbatim>\<open>__getitem__\<close>\<close>

text \<open>
  The native core is not part of the sources. What the Python layer asks of it for one
  view is a parameter: the values \<^verbatim>\<open>core.BNGetStartOffset\<close>, \<^verbatim>\<open>core.BNGetEndOffset\<close>
  and \<^verbatim>\<open>core.BNGetViewLength\<close> return for the view's handle, and the bytes
  \<^verbatim>\<open>core.BNReadViewBuffer(handle, addr, length)\<close> returns.
\<close>

record core =
  BNGetStartOffset :: int
  BNGetEndOffset :: int
  BNGetViewLength :: int
  BNReadViewBuffer :: "int \<Rightarrow> int \<Rightarrow> byte list"

text \<open>
  \<^verbatim>\<open>read(addr, length)\<close>. The second component is the list of requests made to the
  core's storage so far; a call that raises leaves it as it was.
\<close>

definition read :: "core \<Rightarrow> (int \<times> int) list \<Rightarrow> int \<Rightarrow> int \<Rightarrow> (exc + byte list) \<times> (int \<times> int) list" where
  "read c reqs addr len =
     (if addr < 0 \<or> len < 0
      then (Inl (Exc ValueError ''length and address must both be positive''), reqs)
      else (Inr (BNReadViewBuffer c addr len), reqs @ [(addr, len)]))"

text \<open>
  Python's \<^verbatim>\<open>len(self)\<close> on \<^verbatim>\<open>__len__\<close>, which returns
  \<^verbatim>\<open>int(core.BNGetViewLength(self.handle))\<close>: the builtin refuses a negative value and
  one above \<^verbatim>\<open>sys.maxsize\<close> (64-bit: \<open>2^63 - 1\<close>).
\<close>

definition len_view :: "core \<Rightarrow> exc + int" where
  "len_view c =
     (if BNGetViewLength c < 0 then Inl (Exc ValueError ''__len__() should return >= 0'')
      else if BNGetViewLength c > 2 ^ 63 - 1
      then Inl (Exc OverflowError ''cannot fit int into an index-sized integer'')
      else Inr (BNGetViewLength c))"

text \<open>
  Python's \<^verbatim>\<open>slice.indices(length)\<close> for a slice without step: a bound that is
  \<^verbatim>\<open>None\<close> is 0 (start) or \<open>length\<close> (stop); a negative bound counts from
  \<open>length\<close> and is raised to 0; a bound above \<open>length\<close> is lowered to it. A negative
  \<open>length\<close> is a ValueError.
\<close>

definition clamp_bound :: "int \<Rightarrow> int \<Rightarrow> int" where
  "clamp_bound n b = (if b < 0 then (if b + n < 0 then 0 else b + n) else (if b > n then n else b))"

definition slice_indices :: "int option \<Rightarrow> int option \<Rightarrow> int \<Rightarrow> exc + (int \<times> int)" where
  "slice_indices lo hi n =
     (if n < 0 then Inl (Exc ValueError ''length should not be negative'')
      else Inr (case lo of None \<Rightarrow> 0 | Some b \<Rightarrow> clamp_bound n b,
                case hi of None \<Rightarrow> n | Some b \<Rightarrow> clamp_bound n b))"

datatype pyindex =
    Index int
  | Slice "int option" "int option" "int option"
  | Tuple "pyindex list"

text \<open>
  \<^verbatim>\<open>__getitem__(i)\<close>: a tuple concatenates the items of its members; a slice with a
  step is refused, otherwise its bounds are taken against \<^verbatim>\<open>self.end\<close>; a negative
  integer is read at \<^verbatim>\<open>len(self) + i\<close> when \<^verbatim>\<open>i >= -len(self)\<close>; another integer is
  read when it lies in \<open>[start, end)\<close>.
\<close>

definition getitem_int :: "core \<Rightarrow> int \<Rightarrow> exc + byte list" where
  "getitem_int c i =
     (if i < 0 then
        (case len_view c of
           Inl e \<Rightarrow> Inl e
         | Inr n \<Rightarrow>
             if i \<ge> - n then
               (case fst (read c [] (n + i) 1) of
                  Inl e \<Rightarrow> Inl e
                | Inr v \<Rightarrow> if length v = 0 then Inl (Exc IndexError ''index not readable'')
                           else Inr v)
             else Inl (Exc IndexError ''index out of range''))
      else if i \<ge> BNGetStartOffset c \<and> i < BNGetEndOffset c then
        (case fst (read c [] i 1) of
           Inl e \<Rightarrow> Inl e
         | Inr v \<Rightarrow> if length v = 0 then Inl (Exc IndexError ''index not readable'')
                    else Inr v)
      else Inl (Exc IndexError ''index out of range''))"

definition getitem_slice :: "core \<Rightarrow> int option \<Rightarrow> int option \<Rightarrow> int option \<Rightarrow> exc + byte list" where
  "getitem_slice c lo hi step =
     (if step \<noteq> None then Inl (Exc IndexError ''step not implemented'')
      else
        (case slice_indices lo hi (BNGetEndOffset c) of
           Inl e \<Rightarrow> Inl e
         | Inr (start, stop) \<Rightarrow>
             if stop \<le> start then Inr []
             else fst (read c [] start (stop - start))))"

fun getitem :: "core \<Rightarrow> pyindex \<Rightarrow> exc + byte list"
  and getitem_tuple :: "core \<Rightarrow> pyindex list \<Rightarrow> byte list \<Rightarrow> exc + byte list" where
  "getitem c (Tuple ss) = getitem_tuple c ss []"
| "getitem c (Slice lo hi step) = getitem_slice c lo hi step"
| "getitem c (Index i) = getitem_int c i"
| "getitem_tuple c [] result = Inr result"
| "getitem_tuple c (s # ss) result =
     (case getitem c s of
        Inl e \<Rightarrow> Inl e
      | Inr b \<Rightarrow> getitem_tuple c ss (result @ b))"

definition raises :: "exc_kind \<Rightarrow> exc + 'a \<Rightarrow> bool" where
  "raises k r = (case r of Inl (Exc k' msg) \<Rightarrow> k' = k | Inr v \<Rightarrow> False)"

text \<open>
  Modelled from the spec: the core's read behind \<^verbatim>\<open>BNReadViewBuffer\<close> is not part of
  the sources. Spec, section 4.1: a read ``returns only the contiguous mapped prefix (may
  be shorter than requested, including empty)''. \<open>spec_mapped_prefix m a n\<close> follows these words
  for a sparse store \<open>m\<close>: the bytes at \<open>a, a + 1, ...\<close> up to the first unmapped
  address, at most \<open>n\<close> of them. A core honours the read contract for \<open>m\<close> when this
  is what it returns.
\<close>

fun spec_mapped_prefix :: "(int \<Rightarrow> byte option) \<Rightarrow> int \<Rightarrow> nat \<Rightarrow> byte list" where
  "spec_mapped_prefix m a 0 = []"
| "spec_mapped_prefix m a (Suc n) =
     (case m a of None \<Rightarrow> [] | Some b \<Rightarrow> b # spec_mapped_prefix m (a + 1) n)"

definition core_reads :: "core \<Rightarrow> (int \<Rightarrow> byte option) \<Rightarrow> bool" where
  "core_reads c m = (\<forall>a n. BNReadViewBuffer c a n = spec_mapped_prefix m a (nat n))"

text \<open>
  The view of the spec's gap scenario: segments \<open>[0x1000, 0x1010)\<close> and
  \<open>[0x2000, 0x2010)\<close> only, every mapped byte holding the low byte of its address.
\<close>

definition gap_store :: "int \<Rightarrow> byte option" where
  "gap_store a = (if spec_is_valid_offset gap_segments a then Some (word_of_int a) else None)"

definition gap_core :: core where
  "gap_core = \<lparr> BNGetStartOffset = 0x1000, BNGetEndOffset = 0x2010, BNGetViewLength = 0x1010,
                 BNReadViewBuffer = (\<lambda>a n. spec_mapped_prefix gap_store a (nat n)) \<rparr>"


section \<open>Change notifications: \<^verbatim>\<open>BinaryDataNotificationCallbacks\<close>\<close>

text \<open>
  \<^verbatim>\<open>except OSError\<close> handles OSError and its subclasses.
\<close>

fun isinstance_OSError :: "exc \<Rightarrow> bool" where
  "isinstance_OSError (Exc k msg) = (k = OSError \<or> k = FileNotFoundError)"

text \<open>
  The callbacks the core invokes for an observer. The first argument is the observer's
  handler (\<^verbatim>\<open>self._notify.data_written\<close>, ...), which returns or raises. The result is
  \<open>Inr\<close> of the log when the callback returns, \<open>Inl\<close> of the exception when it leaves
  the callback.

  \<^verbatim>\<open>_data_written\<close> handles \<^verbatim>\<open>OSError\<close> only; \<^verbatim>\<open>_data_inserted\<close>,
  \<^verbatim>\<open>_data_removed\<close> and the callbacks of the twenty other event kinds use a bare
  \<^verbatim>\<open>except:\<close>.
\<close>

definition data_written_cb :: "(int \<Rightarrow> int \<Rightarrow> exc + unit) \<Rightarrow> log \<Rightarrow> int \<Rightarrow> int \<Rightarrow> exc + log" where
  "data_written_cb notify_data_written lg offset len =
     (case notify_data_written offset len of
        Inr u \<Rightarrow> Inr lg
      | Inl e \<Rightarrow> if isinstance_OSError e then Inr (lg @ [e]) else Inl e)"

definition data_inserted_cb :: "(int \<Rightarrow> int \<Rightarrow> exc + unit) \<Rightarrow> log \<Rightarrow> int \<Rightarrow> int \<Rightarrow> exc + log" where
  "data_inserted_cb notify_data_inserted lg offset len =
     (case notify_data_inserted offset len of
        Inr u \<Rightarrow> Inr lg
      | Inl e \<Rightarrow> Inr (lg @ [e]))"

definition data_removed_cb :: "(int \<Rightarrow> int \<Rightarrow> exc + unit) \<Rightarrow> log \<Rightarrow> int \<Rightarrow> int \<Rightarrow> exc + log" where
  "data_removed_cb notify_data_removed lg offset len =
     (case notify_data_removed offset len of
        Inr u \<Rightarrow> Inr lg
      | Inl e \<Rightarrow> Inr (lg @ [e]))"

section \<open>Type parsing: \<^verbatim>\<open>parse_type_string\<close>, \<^verbatim>\<open>parse_types_from_string\<close>\<close>

fun is_str :: "pyobj \<Rightarrow> bool" where
  "is_str (PyStr s) = True"
| "is_str (PyBytes b) = False"
| "is_str (PyByteArray b) = False"
| "is_str (PyInt i) = False"
| "is_str (PyBool t) = False"
| "is_str PyNone = False"

text \<open>
  The parser is the core's: \<^verbatim>\<open>core.BNParseTypeString(handle, text, result, errors, type_list)\<close>
  is a parameter. For a text it gives the flag the call returns, \<^verbatim>\<open>errors.value\<close>
  after the call (\<open>None\<close> for a null pointer) and the \<^verbatim>\<open>result\<close> structure, here
  already the pair that \<^verbatim>\<open>Type.create\<close> and \<^verbatim>\<open>QualifiedName._from_core_struct\<close> make
  of it.
\<close>

definition parse_type_string ::
  "(string \<Rightarrow> bool \<times> string option \<times> ('t \<times> 'n)) \<Rightarrow> pyobj \<Rightarrow> exc + ('t \<times> 'n)" where
  "parse_type_string BNParseTypeString text =
     (case text of
        PyStr s \<Rightarrow>
          (case BNParseTypeString s of
             (ok, errors, result) \<Rightarrow>
               if \<not> ok then
                 (case errors of
                    None \<Rightarrow> Inl (Exc AssertionError ''core.BNParseTypeString returned errors set to None'')
                  | Some error_str \<Rightarrow> Inl (Exc SyntaxError error_str))
               else Inr result)
      | PyBytes b \<Rightarrow> Inl (Exc AttributeError ''Source must be a string'')
      | PyByteArray b \<Rightarrow> Inl (Exc AttributeError ''Source must be a string'')
      | PyInt i \<Rightarrow> Inl (Exc AttributeError ''Source must be a string'')
      | PyBool t \<Rightarrow> Inl (Exc AttributeError ''Source must be a string'')
      | PyNone \<Rightarrow> Inl (Exc AttributeError ''Source must be a string''))"

text \<open>
  \<^verbatim>\<open>parse_types_from_string\<close>: on success the three arrays of the parse result are
  turned into dictionaries, one assignment \<^verbatim>\<open>d[name] = type\<close> per entry in array
  order, and returned as a \<^verbatim>\<open>TypeParserResult\<close>.
\<close>

record ('n, 't) BNTypeParserResult =
  parsed_types :: "('n \<times> 't) list"
  parsed_variables :: "('n \<times> 't) list"
  parsed_functions :: "('n \<times> 't) list"

record ('n, 't) TypeParserResult =
  tpr_types :: "'n \<Rightarrow> 't option"
  tpr_variables :: "'n \<Rightarrow> 't option"
  tpr_functions :: "'n \<Rightarrow> 't option"

fun fill_dict :: "('n \<Rightarrow> 't option) \<Rightarrow> ('n \<times> 't) list \<Rightarrow> ('n \<Rightarrow> 't option)" where
  "fill_dict d [] = d"
| "fill_dict d ((name, ty) # rest) = fill_dict (d(name \<mapsto> ty)) rest"

definition parse_types_from_string ::
  "(string \<Rightarrow> bool \<times> string option \<times> ('n, 't) BNTypeParserResult) \<Rightarrow> pyobj
   \<Rightarrow> exc + ('n, 't) TypeParserResult" where
  "parse_types_from_string BNParseTypesString text =
     (case text of
        PyStr s \<Rightarrow>
          (case BNParseTypesString s of
             (ok, errors, parse) \<Rightarrow>
               if \<not> ok then
                 (case errors of
                    None \<Rightarrow> Inl (Exc AssertionError ''core.BNParseTypesString returned errors set to None'')
                  | Some error_str \<Rightarrow> Inl (Exc SyntaxError error_str))
               else Inr \<lparr> tpr_types = fill_dict Map.empty (parsed_types parse),
                          tpr_variables = fill_dict Map.empty (parsed_variables parse),
                          tpr_functions = fill_dict Map.empty (parsed_functions parse) \<rparr>)
      | PyBytes b \<Rightarrow> Inl (Exc AttributeError ''Source must be a string'')
      | PyByteArray b \<Rightarrow> Inl (Exc AttributeError ''Source must be a string'')
      | PyInt i \<Rightarrow> Inl (Exc AttributeError ''Source must be a string'')
      | PyBool t \<Rightarrow> Inl (Exc AttributeError ''Source must be a string'')
      | PyNone \<Rightarrow> Inl (Exc AttributeError ''Source must be a string''))"

text \<open>
  A parser for the examples: it accepts \<open>int foo\<close> and rejects everything else with a
  message.
\<close>

definition example_parser :: "string \<Rightarrow> bool \<times> string option \<times> (string \<times> string)" where
  "example_parser s =
     (if s = ''int foo'' then (True, None, (''int32_t'', ''foo''))
      else (False, Some ''syntax error'', ([], [])))"

definition example_types_parser :: "string \<Rightarrow> bool \<times> string option \<times> (string, string) BNTypeParserResult" where
  "example_types_parser s =
     (if s = ''int foo;''
      then (True, None, \<lparr> parsed_types = [], parsed_variables = [(''foo'', ''int32_t'')],
                           parsed_functions = [] \<rparr>)
      else (False, Some ''syntax error'',
            \<lparr> parsed_types = [], parsed_variables = [], parsed_functions = [] \<rparr>))"

section \<open>Searching: \<^verbatim>\<open>find_all_data\<close> and \<^verbatim>\<open>QueueGenerator\<close>\<close>

datatype FindFlag = FindCaseSensitive | FindCaseInsensitive

text \<open>The \<^verbatim>\<open>flags\<close> argument: a \<^verbatim>\<open>FindFlag\<close>, or a value of another type.\<close>

datatype flags_arg = Flag FindFlag | NotAFindFlag

text \<open>
  The truth value ctypes takes of what a callback returns, for a \<^verbatim>\<open>c_bool\<close> result.
\<close>

fun truthy :: "pyobj \<Rightarrow> bool" where
  "truthy (PyBool t) = t"
| "truthy PyNone = False"
| "truthy (PyInt i) = (i \<noteq> 0)"
| "truthy (PyStr s) = (s \<noteq> [])"
| "truthy (PyBytes b) = (b \<noteq> [])"
| "truthy (PyByteArray b) = (b \<noteq> [])"

text \<open>
  The two callback objects \<^verbatim>\<open>find_all_data\<close> hands to the core.
  \<^verbatim>\<open>lambda ctxt, cur, total: progress_func(cur, total)\<close>, or the constant
  \<^verbatim>\<open>True\<close> when no progress function is given;
  \<^verbatim>\<open>lambda ctxt, addr, match: not match_callback(addr, DataBuffer(handle = match)) is False\<close>,
  which Python reads as \<^verbatim>\<open>not (... is False)\<close>.
\<close>

definition progress_func_obj :: "(int \<Rightarrow> int \<Rightarrow> pyobj) option \<Rightarrow> int \<Rightarrow> int \<Rightarrow> bool" where
  "progress_func_obj progress_func cur tot =
     (case progress_func of Some f \<Rightarrow> truthy (f cur tot) | None \<Rightarrow> True)"

definition match_callback_obj :: "(int \<Rightarrow> byte list \<Rightarrow> pyobj) \<Rightarrow> int \<Rightarrow> byte list \<Rightarrow> bool" where
  "match_callback_obj match_callback addr m = (\<not> (match_callback addr m = PyBool False))"

text \<open>
  Modelled from the spec: \<^verbatim>\<open>core.BNFindAllDataWithProgress\<close> is not part of the
  sources. Spec, section 4.7: the ``caller supplies a match callback invoked once per hit
  with \<open>(address, matchedValue)\<close>; callback return value controls continue/stop; an
  optional progress callback \<open>(current, total) -> bool\<close> provides the same continue/stop
  control over coarser-grained progress. Returns whether at least one match was found.''
  The scan of the range is a sequence of progress reports and hits, in the order the core
  meets them; each is handed to its callback, and a callback answering false ends the
  search. The last argument collects the calls made to the match callback; the result is
  whether a match was found, and those calls.
\<close>

datatype search_event = Progress int int | Hit int "byte list"

fun BNFindAllDataWithProgress ::
  "search_event list \<Rightarrow> (int \<Rightarrow> int \<Rightarrow> bool) \<Rightarrow> (int \<Rightarrow> byte list \<Rightarrow> bool)
   \<Rightarrow> (int \<times> byte list) list \<Rightarrow> bool \<times> (int \<times> byte list) list" where
  "BNFindAllDataWithProgress [] progress match_cb calls = (calls \<noteq> [], calls)"
| "BNFindAllDataWithProgress (Progress cur tot # es) progress match_cb calls =
     (if progress cur tot then BNFindAllDataWithProgress es progress match_cb calls
      else (calls \<noteq> [], calls))"
| "BNFindAllDataWithProgress (Hit addr m # es) progress match_cb calls =
     (if match_cb addr m then BNFindAllDataWithProgress es progress match_cb (calls @ [(addr, m)])
      else (True, calls @ [(addr, m)]))"

text \<open>
  \<^verbatim>\<open>QueueGenerator\<close>: the object the streaming form returns. Its thread runs the core's
  search with the match callback \<^verbatim>\<open>results.put((addr, DataBuffer(handle = match))) or True\<close>;
  \<^verbatim>\<open>__init__\<close> starts the thread. The state holds what the search has still to scan,
  whether the thread is alive, the queue, and for the consuming side the place
  \<^verbatim>\<open>__next__\<close> has reached, the values it has returned so far and how often it has
  raised StopIteration.
\<close>

datatype next_pc = Idle | CheckQueue | GetItem | CheckAlive | CheckEmpty | Ended

record generator =
  pending :: "search_event list"
  progress_cb :: "int \<Rightarrow> int \<Rightarrow> bool"
  alive :: bool
  results :: "(int \<times> byte list) list"
  pc :: next_pc
  delivered :: "(int \<times> byte list) list"
  stops :: nat

definition QueueGenerator :: "search_event list \<Rightarrow> (int \<Rightarrow> int \<Rightarrow> bool) \<Rightarrow> generator" where
  "QueueGenerator scan progress =
     \<lparr> pending = scan, progress_cb = progress, alive = True, results = [], pc = Idle,
       delivered = [], stops = 0 \<rparr>"

text \<open>
  Modelled from the spec: the search the thread runs is the core's, as above; here it is
  taken one event at a time, so that the consumer may run in between. A hit goes to the
  match callback of the source, which puts it on the queue and answers \<^verbatim>\<open>True\<close>, so
  the search goes on; a progress report that is answered false ends the search; when the
  search is over the thread's target returns and the thread is no longer alive.
\<close>

definition thread_step :: "generator \<Rightarrow> generator" where
  "thread_step g =
     (if \<not> alive g then g
      else
        (case pending g of
           [] \<Rightarrow> g\<lparr> alive := False \<rparr>
         | Progress cur tot # es \<Rightarrow>
             if progress_cb g cur tot then g\<lparr> pending := es \<rparr>
             else g\<lparr> pending := [], alive := False \<rparr>
         | Hit addr m # es \<Rightarrow> g\<lparr> results := results g @ [(addr, m)], pending := es \<rparr>))"

text \<open>
  One step of the consumer in \<^verbatim>\<open>__next__\<close>:
  \<^verbatim>\<open>while True:\<close>
  \<^verbatim>\<open>    if not self.results.empty(): return self.results.get()\<close>
  \<^verbatim>\<open>    if (not self.thread.is_alive()) and self.results.empty(): raise StopIteration\<close>
  Each test and the \<^verbatim>\<open>get\<close> is a step of its own, so that the thread may run between
  any two of them. \<open>Idle\<close> and \<open>Ended\<close> are the places between calls (after a value was
  returned, after StopIteration was raised); a step from there is the next call.
\<close>

definition next_step :: "generator \<Rightarrow> generator" where
  "next_step g =
     (case pc g of
        Idle \<Rightarrow> g\<lparr> pc := CheckQueue \<rparr>
      | Ended \<Rightarrow> g\<lparr> pc := CheckQueue \<rparr>
      | CheckQueue \<Rightarrow> if results g \<noteq> [] then g\<lparr> pc := GetItem \<rparr> else g\<lparr> pc := CheckAlive \<rparr>
      | GetItem \<Rightarrow>
          (case results g of
             [] \<Rightarrow> g
           | x # xs \<Rightarrow> g\<lparr> results := xs, delivered := delivered g @ [x], pc := Idle \<rparr>)
      | CheckAlive \<Rightarrow> if \<not> alive g then g\<lparr> pc := CheckEmpty \<rparr> else g\<lparr> pc := CheckQueue \<rparr>
      | CheckEmpty \<Rightarrow>
          if results g = [] then g\<lparr> pc := Ended, stops := stops g + 1 \<rparr>
          else g\<lparr> pc := CheckQueue \<rparr>)"

datatype turn = ThreadRuns | ConsumerRuns

fun run_schedule :: "turn list \<Rightarrow> generator \<Rightarrow> generator" where
  "run_schedule [] g = g"
| "run_schedule (ThreadRuns # ts) g = run_schedule ts (thread_step g)"
| "run_schedule (ConsumerRuns # ts) g = run_schedule ts (next_step g)"

text \<open>The matches a search publishes in all, in publication order.\<close>

fun publishes :: "(int \<Rightarrow> int \<Rightarrow> bool) \<Rightarrow> search_event list \<Rightarrow> (int \<times> byte list) list" where
  "publishes progress [] = []"
| "publishes progress (Hit addr m # es) = (addr, m) # publishes progress es"
| "publishes progress (Progress cur tot # es) =
     (if progress cur tot then publishes progress es else [])"

text \<open>
  \<^verbatim>\<open>find_all_data(start, end, data, flags, progress_func, match_callback)\<close>. The first
  argument is the core's scan of the range for the pattern.
\<close>

datatype find_result = Found bool "(int \<times> byte list) list" | Streaming generator

definition find_all_data ::
  "(int \<Rightarrow> int \<Rightarrow> byte list \<Rightarrow> FindFlag \<Rightarrow> search_event list) \<Rightarrow> int \<Rightarrow> int \<Rightarrow> pyobj \<Rightarrow> flags_arg
   \<Rightarrow> (int \<Rightarrow> int \<Rightarrow> pyobj) option \<Rightarrow> (int \<Rightarrow> byte list \<Rightarrow> pyobj) option \<Rightarrow> exc + find_result" where
  "find_all_data scan start stop data flags progress_func match_callback =
     (case data of
        PyBytes buf \<Rightarrow>
          (case flags of
             NotAFindFlag \<Rightarrow> Inl (Exc TypeError ''flag parameter must have type FindFlag'')
           | Flag fl \<Rightarrow>
               (case match_callback of
                  Some cb \<Rightarrow>
                    (case BNFindAllDataWithProgress (scan start stop buf fl)
                            (progress_func_obj progress_func) (match_callback_obj cb) [] of
                       (found, calls) \<Rightarrow> Inr (Found found calls))
                | None \<Rightarrow>
                    Inr (Streaming (QueueGenerator (scan start stop buf fl)
                                      (progress_func_obj progress_func)))))
      | PyByteArray b \<Rightarrow> Inl (Exc TypeError ''data parameter must be bytes, bytearray, or str'')
      | PyStr s \<Rightarrow> Inl (Exc TypeError ''data parameter must be bytes, bytearray, or str'')
      | PyInt i \<Rightarrow> Inl (Exc TypeError ''data parameter must be bytes, bytearray, or str'')
      | PyBool t \<Rightarrow> Inl (Exc TypeError ''data parameter must be bytes, bytearray, or str'')
      | PyNone \<Rightarrow> Inl (Exc TypeError ''data parameter must be bytes, bytearray, or str''))"

text \<open>A scan for the examples: three hits, with a progress report after the first.\<close>

definition example_scan :: "int \<Rightarrow> int \<Rightarrow> byte list \<Rightarrow> FindFlag \<Rightarrow> search_event list" where
  "example_scan start stop buf fl =
     [Hit 0x1000 buf, Progress 1 3, Hit 0x1004 buf, Hit 0x2008 buf]"

text \<open>
  The invariant of the generator: the matches delivered, then the queue, then what the
  running search will still publish are the matches of the whole search; \<^verbatim>\<open>get\<close> is
  reached only with a queued match; the second test of the queue is reached only with
  the thread finished; StopIteration has been raised only with the thread finished and
  the queue empty.
\<close>

definition gen_inv :: "(int \<Rightarrow> int \<Rightarrow> bool) \<Rightarrow> (int \<times> byte list) list \<Rightarrow> generator \<Rightarrow> bool" where
  "gen_inv p H g =
     (progress_cb g = p
      \<and> delivered g @ results g @ (if alive g then publishes p (pending g) else []) = H
      \<and> (pc g = GetItem \<longrightarrow> results g \<noteq> [])
      \<and> (pc g = CheckEmpty \<longrightarrow> \<not> alive g)
      \<and> (0 < stops g \<longrightarrow> \<not> alive g \<and> results g = [])
      \<and> (pc g = Ended \<longrightarrow> 0 < stops g))"

section \<open>Completion events: \<^verbatim>\<open>AnalysisCompletionEvent\<close>\<close>




text \<open>
  \<^verbatim>\<open>self.callback\<close> is the caller's callback or, after \<^verbatim>\<open>cancel\<close>,
  \<^verbatim>\<open>self._empty_callback\<close>.
\<close>

datatype callback_slot = UserCallback | EmptyCallback


text \<open>
  \<^verbatim>\<open>_notify\<close> runs in the thread the core calls it from, \<^verbatim>\<open>cancel\<close> in the caller's
  thread, so their statements interleave. A call of \<^verbatim>\<open>_notify\<close> is at one of its
  statements: the test \<^verbatim>\<open>id(self) in _pending_analysis_completion_events\<close>, the
  \<^verbatim>\<open>del\<close> after it, \<^verbatim>\<open>inspect.ismethod\<close>, \<^verbatim>\<open>inspect.getargspec\<close> (holding
  \<^verbatim>\<open>arg_offset\<close>), the call of \<^verbatim>\<open>self.callback\<close> (holding the outcome of
  \<^verbatim>\<open>len(callback_spec.args) > arg_offset\<close>), or it has returned. A call of \<^verbatim>\<open>cancel\<close>
  has assigned \<^verbatim>\<open>self.callback\<close> and is at
  \<^verbatim>\<open>core.BNCancelAnalysisCompletionEvent\<close>, at the test of the pending set or at the
  \<^verbatim>\<open>del\<close> after it.
\<close>

datatype notify_pc =
    NotifyTestPending | NotifyDelPending | NotifyIsMethod | NotifyGetargspec bool
  | NotifyCall bool | NotifyReturned

datatype cancel_pc = CancelNotRunning | CancelCore | CancelTestPending | CancelDelPending

text \<open>
  The state of one event: \<^verbatim>\<open>self.callback\<close>, whether the event is in
  \<^verbatim>\<open>_pending_analysis_completion_events\<close>, whether the core still holds it, the calls
  of \<^verbatim>\<open>_notify\<close> made so far and where each one is, where the caller's \<^verbatim>\<open>cancel\<close>
  is, how often the body of the caller's callback has run, the log, and the exceptions
  that have left \<^verbatim>\<open>_notify\<close> or \<^verbatim>\<open>cancel\<close>.
\<close>

record completion_event =
  callback :: callback_slot
  in_pending_events :: bool
  core_holds_event :: bool
  notify_calls :: "notify_pc list"
  cancel_call :: cancel_pc
  invocations :: nat
  error_log :: log
  escaped :: "exc list"
























section \<open>Analysis snapshots: \<^verbatim>\<open>analysis_info\<close> and \<^verbatim>\<open>analysis_progress\<close>\<close>

text \<open>
  The structures the core hands out (\<^verbatim>\<open>BNAnalysisInfo\<close> with its array of
  \<^verbatim>\<open>BNActiveAnalysisInfo\<close>, \<^verbatim>\<open>BNAnalysisProgress\<close>) and the Python objects made of
  them. Python objects live in a heap and are known by their identity; a field holds an
  integer, a function handle (what \<^verbatim>\<open>BNNewFunctionReference\<close> returns, wrapped in a
  \<^verbatim>\<open>Function\<close>) or the identity of another object.
\<close>

datatype AnalysisState =
    InitialState | HoldState | IdleState | DisassembleState | AnalyzeState | ExtendedAnalyzeState

record BNActiveAnalysisInfo =
  aai_func :: nat
  aai_analysisTime :: int
  aai_updateCount :: int
  aai_submitCount :: int

record BNAnalysisInfo =
  ai_state :: AnalysisState
  ai_analysisTime :: int
  ai_activeInfo :: "BNActiveAnalysisInfo list"
  ai_count :: nat

record BNAnalysisProgress =
  ap_state :: AnalysisState
  ap_count :: int
  ap_total :: int

datatype pyobject =
    ListObj "nat list"
  | ActiveAnalysisInfoObj nat int int int
  | AnalysisInfoObj AnalysisState int nat
  | AnalysisProgressObj AnalysisState int int

record heap =
  objs :: "nat \<Rightarrow> pyobject option"
  next_id :: nat

text \<open>Creating an object: it gets an identity no object has had before.\<close>

definition alloc :: "pyobject \<Rightarrow> heap \<Rightarrow> nat \<times> heap" where
  "alloc ob h = (next_id h, h\<lparr> objs := (objs h)(next_id h \<mapsto> ob), next_id := Suc (next_id h) \<rparr>)"

text \<open>\<^verbatim>\<open>lst.append(x)\<close> changes the list object in place.\<close>

definition list_append :: "nat \<Rightarrow> nat \<Rightarrow> heap \<Rightarrow> heap" where
  "list_append lst x h =
     (case objs h lst of
        Some (ListObj xs) \<Rightarrow> h\<lparr> objs := (objs h)(lst \<mapsto> ListObj (xs @ [x])) \<rparr>
      | Some (ActiveAnalysisInfoObj f t u c) \<Rightarrow> h
      | Some (AnalysisInfoObj st t l) \<Rightarrow> h
      | Some (AnalysisProgressObj st c t) \<Rightarrow> h
      | None \<Rightarrow> h)"

text \<open>
  The loop of \<^verbatim>\<open>analysis_info\<close>, over the indices \<^verbatim>\<open>range(0, info.count)\<close>:
  \<^verbatim>\<open>func = Function(self, core.BNNewFunctionReference(info.activeInfo[i].func))\<close>
  \<^verbatim>\<open>active_info = ActiveAnalysisInfo(func, info.activeInfo[i].analysisTime, ...)\<close>
  \<^verbatim>\<open>active_info_list.append(active_info)\<close>
\<close>

fun active_info_loop :: "BNActiveAnalysisInfo list \<Rightarrow> nat list \<Rightarrow> nat \<Rightarrow> heap \<Rightarrow> heap" where
  "active_info_loop activeInfo [] active_info_list h = h"
| "active_info_loop activeInfo (i # rest) active_info_list h =
     (case alloc (ActiveAnalysisInfoObj (aai_func (activeInfo ! i))
                    (aai_analysisTime (activeInfo ! i)) (aai_updateCount (activeInfo ! i))
                    (aai_submitCount (activeInfo ! i))) h of
        (active_info, h1) \<Rightarrow>
          active_info_loop activeInfo rest active_info_list
            (list_append active_info_list active_info h1))"

text \<open>
  \<^verbatim>\<open>analysis_info\<close>. The first argument is what \<^verbatim>\<open>core.BNGetAnalysisInfo\<close> returned:
  nothing (a null pointer) or the structure behind the pointer. The result is the
  identity of the new \<^verbatim>\<open>AnalysisInfo\<close> object. \<^verbatim>\<open>core.BNFreeAnalysisInfo\<close> releases
  the core's structure and touches no Python object.
\<close>

definition analysis_info :: "BNAnalysisInfo option \<Rightarrow> heap \<Rightarrow> (exc + nat) \<times> heap" where
  "analysis_info info_ref h =
     (case info_ref of
        None \<Rightarrow> (Inl (Exc AssertionError ''core.BNGetAnalysisInfo returned None''), h)
      | Some info \<Rightarrow>
          (case alloc (ListObj []) h of
             (active_info_list, h1) \<Rightarrow>
               (case alloc (AnalysisInfoObj (ai_state info) (ai_analysisTime info) active_info_list)
                       (active_info_loop (ai_activeInfo info) [0..<ai_count info]
                          active_info_list h1) of
                  (result, h2) \<Rightarrow> (Inr result, h2))))"

text \<open>
  \<^verbatim>\<open>analysis_progress\<close>: \<^verbatim>\<open>core.BNGetAnalysisProgress\<close> returns its structure by value.
\<close>

definition analysis_progress :: "BNAnalysisProgress \<Rightarrow> heap \<Rightarrow> nat \<times> heap" where
  "analysis_progress result h =
     alloc (AnalysisProgressObj (ap_state result) (ap_count result) (ap_total result)) h"

text \<open>
  What a caller reads from a snapshot: the properties \<^verbatim>\<open>state\<close>,
  \<^verbatim>\<open>analysis_time\<close> and \<^verbatim>\<open>active_info\<close> of an \<^verbatim>\<open>AnalysisInfo\<close>, the latter
  with \<^verbatim>\<open>func\<close>, \<^verbatim>\<open>analysis_time\<close>, \<^verbatim>\<open>update_count\<close> and \<^verbatim>\<open>submit_count\<close> of
  each entry; \<^verbatim>\<open>state\<close>, \<^verbatim>\<open>count\<close> and \<^verbatim>\<open>total\<close> of an \<^verbatim>\<open>AnalysisProgress\<close>.
\<close>

definition read_active_info :: "heap \<Rightarrow> nat \<Rightarrow> (nat \<times> int \<times> int \<times> int) option" where
  "read_active_info h a =
     (case objs h a of
        Some (ActiveAnalysisInfoObj f t u c) \<Rightarrow> Some (f, t, u, c)
      | Some (ListObj xs) \<Rightarrow> None
      | Some (AnalysisInfoObj st t l) \<Rightarrow> None
      | Some (AnalysisProgressObj st c t) \<Rightarrow> None
      | None \<Rightarrow> None)"

definition read_analysis_info ::
  "heap \<Rightarrow> nat \<Rightarrow> (AnalysisState \<times> int \<times> (nat \<times> int \<times> int \<times> int) option list) option" where
  "read_analysis_info h r =
     (case objs h r of
        Some (AnalysisInfoObj st t l) \<Rightarrow>
          (case objs h l of
             Some (ListObj ids) \<Rightarrow> Some (st, t, map (read_active_info h) ids)
           | Some (ActiveAnalysisInfoObj f t' u c) \<Rightarrow> None
           | Some (AnalysisInfoObj st' t' l') \<Rightarrow> None
           | Some (AnalysisProgressObj st' c t') \<Rightarrow> None
           | None \<Rightarrow> None)
      | Some (ListObj xs) \<Rightarrow> None
      | Some (ActiveAnalysisInfoObj f t u c) \<Rightarrow> None
      | Some (AnalysisProgressObj st c t) \<Rightarrow> None
      | None \<Rightarrow> None)"

definition read_analysis_progress :: "heap \<Rightarrow> nat \<Rightarrow> (AnalysisState \<times> int \<times> int) option" where
  "read_analysis_progress h r =
     (case objs h r of
        Some (AnalysisProgressObj st c t) \<Rightarrow> Some (st, c, t)
      | Some (ListObj xs) \<Rightarrow> None
      | Some (ActiveAnalysisInfoObj f t u c) \<Rightarrow> None
      | Some (AnalysisInfoObj st t l) \<Rightarrow> None
      | None \<Rightarrow> None)"

text \<open>
  A heap is well formed when every object's identity lies below the next identity. Two
  heaps agree below \<open>n\<close> when the objects with identities below \<open>n\<close> are the same in
  both: what anything running later may have done to the second heap without writing to
  those objects.
\<close>

definition heap_ok :: "heap \<Rightarrow> bool" where
  "heap_ok h = (\<forall>i. next_id h \<le> i \<longrightarrow> objs h i = None)"

definition agree_below :: "nat \<Rightarrow> heap \<Rightarrow> heap \<Rightarrow> bool" where
  "agree_below n h h' = (\<forall>i. i < n \<longrightarrow> objs h' i = objs h i)"

definition empty_heap :: heap where
  "empty_heap = \<lparr> objs = (\<lambda>i. None), next_id = 0 \<rparr>"

definition example_info :: BNAnalysisInfo where
  "example_info =
     \<lparr> ai_state = AnalyzeState, ai_analysisTime = 120,
       ai_activeInfo = [\<lparr> aai_func = 7, aai_analysisTime = 30, aai_updateCount = 2, aai_submitCount = 1 \<rparr>,
                        \<lparr> aai_func = 9, aai_analysisTime = 45, aai_updateCount = 0, aai_submitCount = 3 \<rparr>],
       ai_count = 2 \<rparr>"

definition example_info_later :: BNAnalysisInfo where
  "example_info_later =
     \<lparr> ai_state = IdleState, ai_analysisTime = 300, ai_activeInfo = [], ai_count = 0 \<rparr>"

section \<open>Insert and remove on a view that keeps the default hooks\<close>

lemma insert_cb_default: "insert_cb perform_insert lg offset src = (0, lg)"
  by (simp add: insert_cb_def perform_insert_def)

lemma remove_cb_default: "remove_cb perform_remove lg offset n = (0, lg)"
  by (simp add: remove_cb_def perform_remove_def)

text \<open>
  C7. A view that does not override \<^verbatim>\<open>perform_insert\<close> and \<^verbatim>\<open>perform_remove\<close>
  reports 0 from \<^verbatim>\<open>insert(addr, data)\<close> and \<^verbatim>\<open>remove(addr, length)\<close>, for every
  address, every bytes, bytearray or str payload and every length: the hooks return 0,
  the registered callbacks hand 0 to the core and log nothing, and the public calls
  return 0 instead of raising.
\<close>

theorem default_insert_remove_report_zero:
  "perform_insert addr bs = Inr 0
   \<and> perform_remove addr n = Inr 0
   \<and> insert_cb perform_insert lg addr bs = (0, lg)
   \<and> remove_cb perform_remove lg addr n = (0, lg)
   \<and> insert_view perform_insert lg addr (PyBytes bs) = Inr (0, lg)
   \<and> insert_view perform_insert lg addr (PyByteArray bs) = Inr (0, lg)
   \<and> insert_view perform_insert lg addr (PyStr s) = Inr (0, lg)
   \<and> remove_view perform_remove lg addr n = Inr (0, lg)"
  by (simp add: insert_view_def remove_view_def BNInsertViewBuffer_def BNRemoveViewData_def
      insert_cb_default remove_cb_default perform_insert_def perform_remove_def)

section \<open>The default next-valid-offset hook\<close>




section \<open>Reading\<close>

lemma spec_mapped_prefix_length: "length (spec_mapped_prefix m a n) \<le> n"
  by (induction n arbitrary: a) (auto split: option.splits)

lemma spec_mapped_prefix_nth:
  "i < length (spec_mapped_prefix m a n) \<Longrightarrow> m (a + int i) = Some (spec_mapped_prefix m a n ! i)"
proof (induction n arbitrary: a i)
  case 0
  then show ?case by simp
next
  case (Suc n)
  show ?case
  proof (cases "m a")
    case None
    with Suc.prems show ?thesis by simp
  next
    case (Some b)
    show ?thesis
    proof (cases i)
      case 0
      with Some show ?thesis by simp
    next
      case (Suc j)
      with Suc.prems Some have "j < length (spec_mapped_prefix m (a + 1) n)" by simp
      from Suc.IH [OF this] Some Suc show ?thesis by (simp add: algebra_simps)
    qed
  qed
qed

lemma spec_mapped_prefix_stop:
  "length (spec_mapped_prefix m a n) < n \<Longrightarrow> m (a + int (length (spec_mapped_prefix m a n))) = None"
proof (induction n arbitrary: a)
  case 0
  then show ?case by simp
next
  case (Suc n)
  show ?case
  proof (cases "m a")
    case None
    then show ?thesis by simp
  next
    case (Some b)
    with Suc.prems have "length (spec_mapped_prefix m (a + 1) n) < n" by simp
    from Suc.IH [OF this] Some show ?thesis by (simp add: algebra_simps)
  qed
qed

lemma gap_core_reads: "core_reads gap_core gap_store"
  by (simp add: core_reads_def gap_core_def)

lemma gap_read_100c: "spec_mapped_prefix gap_store 0x100c (nat 16) = [0x0c, 0x0d, 0x0e, 0x0f]"
  by code_simp

lemma gap_read_1010: "spec_mapped_prefix gap_store 0x1010 (nat 16) = []"
  by code_simp

text \<open>
  C3. \<^verbatim>\<open>read(addr, length)\<close> with a negative address or length raises ValueError and
  makes no request to the core's storage. With both non-negative it never raises: it
  makes one request and returns the bytes the core answers, unchanged; over a core that
  honours the read contract for a sparse store these are the contiguous mapped prefix at
  \<open>addr\<close>: at most \<open>length\<close> bytes, each the byte mapped at its address, ending early
  only at an unmapped address (so possibly empty).
\<close>

theorem read_rejects_negative_else_returns_prefix:
  "(addr < 0 \<or> len < 0 \<longrightarrow>
      raises ValueError (fst (read c reqs addr len)) \<and> snd (read c reqs addr len) = reqs)
   \<and> (0 \<le> addr \<and> 0 \<le> len \<longrightarrow>
      read c reqs addr len = (Inr (BNReadViewBuffer c addr len), reqs @ [(addr, len)]))
   \<and> (0 \<le> addr \<and> 0 \<le> len \<and> core_reads c m \<longrightarrow>
      (\<exists>bs. fst (read c reqs addr len) = Inr bs
         \<and> bs = spec_mapped_prefix m addr (nat len)
         \<and> int (length bs) \<le> len
         \<and> (\<forall>i. i < length bs \<longrightarrow> m (addr + int i) = Some (bs ! i))
         \<and> (int (length bs) < len \<longrightarrow> m (addr + int (length bs)) = None)))"
proof (intro conjI impI)
  assume "addr < 0 \<or> len < 0"
  then show "raises ValueError (fst (read c reqs addr len))"
    by (auto simp: read_def raises_def)
next
  assume "addr < 0 \<or> len < 0"
  then show "snd (read c reqs addr len) = reqs"
    by (auto simp: read_def)
next
  assume "0 \<le> addr \<and> 0 \<le> len"
  then show "read c reqs addr len = (Inr (BNReadViewBuffer c addr len), reqs @ [(addr, len)])"
    by (simp add: read_def)
next
  assume h: "0 \<le> addr \<and> 0 \<le> len \<and> core_reads c m"
  let ?bs = "spec_mapped_prefix m addr (nat len)"
  from h have r: "fst (read c reqs addr len) = Inr ?bs"
    by (simp add: read_def core_reads_def)
  have l: "int (length ?bs) \<le> len"
    using spec_mapped_prefix_length [of m addr "nat len"] h by linarith
  have n: "\<forall>i. i < length ?bs \<longrightarrow> m (addr + int i) = Some (?bs ! i)"
    by (simp add: spec_mapped_prefix_nth)
  have s: "int (length ?bs) < len \<longrightarrow> m (addr + int (length ?bs)) = None"
  proof
    assume "int (length ?bs) < len"
    then have "length ?bs < nat len" by linarith
    then show "m (addr + int (length ?bs)) = None" by (rule spec_mapped_prefix_stop)
  qed
  from r l n s
  show "\<exists>bs. fst (read c reqs addr len) = Inr bs
         \<and> bs = spec_mapped_prefix m addr (nat len)
         \<and> int (length bs) \<le> len
         \<and> (\<forall>i. i < length bs \<longrightarrow> m (addr + int i) = Some (bs ! i))
         \<and> (int (length bs) < len \<longrightarrow> m (addr + int (length bs)) = None)"
    by blast
qed

theorem read_gap_witness:
  "core_reads gap_core gap_store
   \<and> read gap_core [] 0x100c 16 = (Inr [0x0c, 0x0d, 0x0e, 0x0f], [(0x100c, 16)])
   \<and> read gap_core [] 0x1010 16 = (Inr [], [(0x1010, 16)])
   \<and> raises ValueError (fst (read gap_core [] (- 1) 4))
   \<and> snd (read gap_core [] (- 1) 4) = []
   \<and> raises ValueError (fst (read gap_core [] 0x1000 (- 4)))"
  using read_rejects_negative_else_returns_prefix [of "- 1" 4 gap_core "[]" gap_store]
    read_rejects_negative_else_returns_prefix [of "0x1000" "- 4" gap_core "[]" gap_store]
    read_rejects_negative_else_returns_prefix [of "0x100c" "16" gap_core "[]" gap_store]
    read_rejects_negative_else_returns_prefix [of "0x1010" "16" gap_core "[]" gap_store]
    gap_core_reads gap_read_100c gap_read_1010
  by (simp add: gap_core_def)

section \<open>Indexing\<close>
















section \<open>Observer failures\<close>

text \<open>
  C1 fails for \<^verbatim>\<open>data_written\<close>: an observer whose \<^verbatim>\<open>data_written\<close> handler raises
  ValueError is not caught by \<^verbatim>\<open>_data_written\<close> and nothing is logged; the same
  failure in \<^verbatim>\<open>data_inserted\<close> or \<^verbatim>\<open>data_removed\<close> is caught and logged, and
  \<^verbatim>\<open>_data_written\<close> does catch and log an OSError.
\<close>

theorem data_written_lets_other_exceptions_escape:
  "data_written_cb (\<lambda>offset len. Inl (Exc ValueError ''observer failed'')) [] 0x1000 4
     = Inl (Exc ValueError ''observer failed'')
   \<and> data_inserted_cb (\<lambda>offset len. Inl (Exc ValueError ''observer failed'')) [] 0x1000 4
     = Inr [Exc ValueError ''observer failed'']
   \<and> data_removed_cb (\<lambda>offset len. Inl (Exc ValueError ''observer failed'')) [] 0x1000 4
     = Inr [Exc ValueError ''observer failed'']
   \<and> data_written_cb (\<lambda>offset len. Inl (Exc OSError ''observer failed'')) [] 0x1000 4
     = Inr [Exc OSError ''observer failed'']"
  by (simp add: data_written_cb_def data_inserted_cb_def data_removed_cb_def)

section \<open>Type parsing\<close>

lemma raises_Inl [simp]: "raises k (Inl (Exc k' msg)) = (k' = k)"
  by (simp add: raises_def)

lemma raises_Inr [simp]: "raises k (Inr v) = False"
  by (simp add: raises_def)

text \<open>
  C8. Over a parser that sets \<^verbatim>\<open>errors\<close> whenever it rejects (the contract the code
  asserts): for a text \<open>s\<close>, \<^verbatim>\<open>parse_type_string\<close> and \<^verbatim>\<open>parse_types_from_string\<close>
  raise SyntaxError if and only if the parser rejects \<open>s\<close>, and the exception carries the
  parser's message; when the parser accepts, \<^verbatim>\<open>parse_type_string\<close> returns the parsed
  (type, name) pair and \<^verbatim>\<open>parse_types_from_string\<close> the dictionaries of the parsed
  types, variables and functions, without raising. An argument that is not a str is
  refused with AttributeError before the parser is consulted.
\<close>

theorem parse_raises_syntax_error_iff_rejected:
  assumes msg1: "\<forall>s. \<not> fst (P s) \<longrightarrow> fst (snd (P s)) \<noteq> None"
      and msg2: "\<forall>s. \<not> fst (Q s) \<longrightarrow> fst (snd (Q s)) \<noteq> None"
  shows
  "(raises SyntaxError (parse_type_string P (PyStr s)) \<longleftrightarrow> \<not> fst (P s))
   \<and> (raises SyntaxError (parse_types_from_string Q (PyStr s)) \<longleftrightarrow> \<not> fst (Q s))
   \<and> (\<not> fst (P s) \<longrightarrow> (\<exists>m. fst (snd (P s)) = Some m \<and> parse_type_string P (PyStr s) = Inl (Exc SyntaxError m)))
   \<and> (\<not> fst (Q s) \<longrightarrow> (\<exists>m. fst (snd (Q s)) = Some m \<and> parse_types_from_string Q (PyStr s) = Inl (Exc SyntaxError m)))
   \<and> (fst (P s) \<longrightarrow> parse_type_string P (PyStr s) = Inr (snd (snd (P s))))
   \<and> (\<not> is_str v \<longrightarrow> raises AttributeError (parse_type_string P v)
         \<and> raises AttributeError (parse_types_from_string Q v))
   \<and> (fst (Q s) \<longrightarrow> parse_types_from_string Q (PyStr s) =
         Inr \<lparr> tpr_types = fill_dict Map.empty (parsed_types (snd (snd (Q s)))),
               tpr_variables = fill_dict Map.empty (parsed_variables (snd (snd (Q s)))),
               tpr_functions = fill_dict Map.empty (parsed_functions (snd (snd (Q s)))) \<rparr>)"
proof -
  obtain ok errs r where p: "P s = (ok, errs, r)" by (cases "P s") auto
  obtain ok' errs' r' where q: "Q s = (ok', errs', r')" by (cases "Q s") auto
  from msg1 p have e: "\<not> ok \<longrightarrow> errs \<noteq> None" by (metis fst_conv snd_conv)
  from msg2 q have e': "\<not> ok' \<longrightarrow> errs' \<noteq> None" by (metis fst_conv snd_conv)
  have a: "\<not> is_str v \<longrightarrow> raises AttributeError (parse_type_string P v)
         \<and> raises AttributeError (parse_types_from_string Q v)"
    by (cases v) (simp_all add: parse_type_string_def parse_types_from_string_def)
  show ?thesis
    using p q e e' a
    by (auto simp: parse_type_string_def parse_types_from_string_def split: option.splits)
qed

lemma example_parsers_give_messages:
  "\<forall>s. \<not> fst (example_parser s) \<longrightarrow> fst (snd (example_parser s)) \<noteq> None"
  "\<forall>s. \<not> fst (example_types_parser s) \<longrightarrow> fst (snd (example_types_parser s)) \<noteq> None"
  by (simp_all add: example_parser_def example_types_parser_def)

theorem parse_witness:
  "parse_type_string example_parser (PyStr ''int foo'') = Inr (''int32_t'', ''foo'')
   \<and> parse_type_string example_parser (PyStr ''int int'') = Inl (Exc SyntaxError ''syntax error'')
   \<and> parse_types_from_string example_types_parser (PyStr ''int foo;'') =
        Inr \<lparr> tpr_types = Map.empty, tpr_variables = [''foo'' \<mapsto> ''int32_t''],
              tpr_functions = Map.empty \<rparr>
   \<and> parse_types_from_string example_types_parser (PyStr ''int'') = Inl (Exc SyntaxError ''syntax error'')
   \<and> raises AttributeError (parse_type_string example_parser (PyInt 5))"
  using parse_raises_syntax_error_iff_rejected
      [OF example_parsers_give_messages, of "''int foo''" "PyInt 5"]
    parse_raises_syntax_error_iff_rejected
      [OF example_parsers_give_messages, of "''int int''" "PyInt 5"]
    parse_raises_syntax_error_iff_rejected
      [OF example_parsers_give_messages, of "''int foo;''" "PyInt 5"]
    parse_raises_syntax_error_iff_rejected
      [OF example_parsers_give_messages, of "''int''" "PyInt 5"]
  by (simp add: parse_type_string_def parse_types_from_string_def
      example_parser_def example_types_parser_def)

section \<open>Searching with a match callback\<close>

lemma BNFindAllDataWithProgress_calls:
  "BNFindAllDataWithProgress evs p mcb calls =
     (calls @ takeWhile (\<lambda>(a, m). mcb a m) (publishes p evs)
            @ take 1 (dropWhile (\<lambda>(a, m). mcb a m) (publishes p evs)) \<noteq> [],
      calls @ takeWhile (\<lambda>(a, m). mcb a m) (publishes p evs)
            @ take 1 (dropWhile (\<lambda>(a, m). mcb a m) (publishes p evs)))"
  by (induction evs p mcb calls rule: BNFindAllDataWithProgress.induct) auto

lemma stop_at_nonempty:
  "(takeWhile f hs @ take 1 (dropWhile f hs) \<noteq> []) = (hs \<noteq> [])"
  by (cases hs) auto

lemma stop_at_all:
  "\<forall>x \<in> set hs. f x \<Longrightarrow> takeWhile f hs @ take 1 (dropWhile f hs) = hs"
  by (induction hs) auto

text \<open>
  C5. With a match callback supplied (bytes data, a FindFlag), \<^verbatim>\<open>find_all_data\<close> calls
  the callback once per hit, in order, with the hit's address and value, up to and
  including the first hit for which the callback returns \<^verbatim>\<open>False\<close>, and no further; a
  callback that always returns \<^verbatim>\<open>False\<close> is therefore called for exactly the first
  hit, however many there are; a callback that never returns \<^verbatim>\<open>False\<close> is called for
  every hit. The value returned says whether at least one match was found. (The hits
  are those the search meets before a progress function, if one is given, stops it.)
\<close>

theorem find_all_data_stops_when_callback_returns_False:
  "\<exists>found calls.
      find_all_data scan start stop (PyBytes buf) (Flag fl) progress_func (Some cb)
        = Inr (Found found calls)
      \<and> calls = takeWhile (\<lambda>(a, m). cb a m \<noteq> PyBool False)
                   (publishes (progress_func_obj progress_func) (scan start stop buf fl))
                @ take 1 (dropWhile (\<lambda>(a, m). cb a m \<noteq> PyBool False)
                   (publishes (progress_func_obj progress_func) (scan start stop buf fl)))
      \<and> found = (publishes (progress_func_obj progress_func) (scan start stop buf fl) \<noteq> [])
      \<and> ((\<forall>a m. cb a m = PyBool False)
           \<and> publishes (progress_func_obj progress_func) (scan start stop buf fl) \<noteq> []
          \<longrightarrow> calls = [hd (publishes (progress_func_obj progress_func) (scan start stop buf fl))]
              \<and> found)
      \<and> ((\<forall>a m. cb a m \<noteq> PyBool False)
          \<longrightarrow> calls = publishes (progress_func_obj progress_func) (scan start stop buf fl))"
proof -
  let ?H = "publishes (progress_func_obj progress_func) (scan start stop buf fl)"
  let ?f = "\<lambda>(a, m). cb a m \<noteq> PyBool False"
  let ?calls = "takeWhile ?f ?H @ take 1 (dropWhile ?f ?H)"
  have eqf: "match_callback_obj cb = (\<lambda>a m. cb a m \<noteq> PyBool False)"
    by (intro ext) (simp add: match_callback_obj_def)
  have loop: "BNFindAllDataWithProgress (scan start stop buf fl)
        (progress_func_obj progress_func) (match_callback_obj cb) [] = (?calls \<noteq> [], ?calls)"
    unfolding eqf BNFindAllDataWithProgress_calls by simp
  have ne: "(?calls \<noteq> []) = (?H \<noteq> [])"
    by (rule stop_at_nonempty)
  have r: "find_all_data scan start stop (PyBytes buf) (Flag fl) progress_func (Some cb)
        = Inr (Found (?H \<noteq> []) ?calls)"
    by (simp only: find_all_data_def pyobj.case flags_arg.case option.case loop prod.case ne)
  have a: "(\<forall>a m. cb a m = PyBool False) \<and> ?H \<noteq> [] \<longrightarrow> ?calls = [hd ?H] \<and> ?H \<noteq> []"
  proof
    assume h: "(\<forall>a m. cb a m = PyBool False) \<and> ?H \<noteq> []"
    then obtain x xs where e: "?H = x # xs" by (cases ?H) auto
    obtain a0 m0 where x: "x = (a0, m0)" by (cases x)
    from h e x show "?calls = [hd ?H] \<and> ?H \<noteq> []" by simp
  qed
  have b: "(\<forall>a m. cb a m \<noteq> PyBool False) \<longrightarrow> ?calls = ?H"
  proof
    assume h: "\<forall>a m. cb a m \<noteq> PyBool False"
    then have "\<forall>x \<in> set ?H. ?f x" by auto
    then show "?calls = ?H" by (rule stop_at_all)
  qed
  from r a b show ?thesis by blast
qed

theorem find_all_data_witness:
  "find_all_data example_scan 0x1000 0x3000 (PyBytes [0x41]) (Flag FindCaseSensitive) None
      (Some (\<lambda>a m. PyBool False)) = Inr (Found True [(0x1000, [0x41])])
   \<and> find_all_data example_scan 0x1000 0x3000 (PyBytes [0x41]) (Flag FindCaseSensitive) None
      (Some (\<lambda>a m. PyNone)) = Inr (Found True [(0x1000, [0x41]), (0x1004, [0x41]), (0x2008, [0x41])])"
  using find_all_data_stops_when_callback_returns_False
      [of example_scan "0x1000" "0x3000" "[0x41]" FindCaseSensitive None "\<lambda>a m. PyBool False"]
    find_all_data_stops_when_callback_returns_False
      [of example_scan "0x1000" "0x3000" "[0x41]" FindCaseSensitive None "\<lambda>a m. PyNone"]
  by (simp add: find_all_data_def example_scan_def progress_func_obj_def match_callback_obj_def)

section \<open>Completion events fire at most once\<close>
























lemma nth_append_length_upd: "(xs @ [x])[length xs := y] = xs @ [y]"
  by simp






section \<open>The streaming search\<close>

lemma gen_inv_init: "gen_inv p (publishes p scan) (QueueGenerator scan p)"
  by (simp add: gen_inv_def QueueGenerator_def)

lemma gen_inv_thread_step: "gen_inv p H g \<Longrightarrow> gen_inv p H (thread_step g)"
proof (cases "alive g")
  case False
  assume "gen_inv p H g"
  with False show ?thesis by (simp add: thread_step_def)
next
  case True
  assume i: "gen_inv p H g"
  show ?thesis
  proof (cases "pending g")
    case Nil
    with i True show ?thesis by (auto simp: gen_inv_def thread_step_def)
  next
    case (Cons e es)
    show ?thesis
    proof (cases e)
      case (Progress c t)
      with i True Cons show ?thesis by (auto simp: gen_inv_def thread_step_def)
    next
      case (Hit a m)
      with i True Cons show ?thesis by (auto simp: gen_inv_def thread_step_def)
    qed
  qed
qed

lemma gen_inv_next_step: "gen_inv p H g \<Longrightarrow> gen_inv p H (next_step g)"
proof (cases "pc g")
  case GetItem
  assume i: "gen_inv p H g"
  with GetItem obtain x xs where "results g = x # xs"
    by (cases "results g") (auto simp: gen_inv_def)
  with i GetItem show ?thesis by (auto simp: gen_inv_def next_step_def)
qed (auto simp: gen_inv_def next_step_def)

lemma gen_inv_run: "gen_inv p H g \<Longrightarrow> gen_inv p H (run_schedule sched g)"
  by (induction sched g rule: run_schedule.induct)
     (simp_all add: gen_inv_thread_step gen_inv_next_step)


lemma next_step_at:
  "pc g = Idle \<Longrightarrow> next_step g = g\<lparr> pc := CheckQueue \<rparr>"
  "pc g = Ended \<Longrightarrow> next_step g = g\<lparr> pc := CheckQueue \<rparr>"
  "pc g = CheckQueue \<Longrightarrow> results g \<noteq> [] \<Longrightarrow> next_step g = g\<lparr> pc := GetItem \<rparr>"
  "pc g = CheckQueue \<Longrightarrow> results g = [] \<Longrightarrow> next_step g = g\<lparr> pc := CheckAlive \<rparr>"
  "pc g = GetItem \<Longrightarrow> results g = x # xs \<Longrightarrow>
     next_step g = g\<lparr> results := xs, delivered := delivered g @ [x], pc := Idle \<rparr>"
  "pc g = CheckAlive \<Longrightarrow> \<not> alive g \<Longrightarrow> next_step g = g\<lparr> pc := CheckEmpty \<rparr>"
  "pc g = CheckAlive \<Longrightarrow> alive g \<Longrightarrow> next_step g = g\<lparr> pc := CheckQueue \<rparr>"
  "pc g = CheckEmpty \<Longrightarrow> results g = [] \<Longrightarrow>
     next_step g = g\<lparr> pc := Ended, stops := stops g + 1 \<rparr>"
  "pc g = CheckEmpty \<Longrightarrow> results g \<noteq> [] \<Longrightarrow> next_step g = g\<lparr> pc := CheckQueue \<rparr>"
  by (simp_all add: next_step_def)

lemma run_schedule_append:
  "run_schedule (xs @ ys) g = run_schedule ys (run_schedule xs g)"
  by (induction xs g rule: run_schedule.induct) simp_all

lemma next_step_frame:
  "alive (next_step g) = alive g" "pending (next_step g) = pending g"
  "progress_cb (next_step g) = progress_cb g" "stops g \<le> stops (next_step g)"
  by (cases "pc g"; cases "results g"; simp add: next_step_def)+

lemma thread_step_frame:
  "pc (thread_step g) = pc g" "delivered (thread_step g) = delivered g"
  "stops (thread_step g) = stops g" "progress_cb (thread_step g) = progress_cb g"
  by (simp_all add: thread_step_def split: list.splits search_event.splits)

lemma thread_step_dead: "\<not> alive g \<Longrightarrow> thread_step g = g"
  by (simp add: thread_step_def)

text \<open>Once the sequence has ended, nothing is delivered any more.\<close>

lemma ended_step:
  assumes "gen_inv p H g" "0 < stops g"
  shows "delivered (thread_step g) = delivered g \<and> 0 < stops (thread_step g)"
    and "delivered (next_step g) = delivered g \<and> 0 < stops (next_step g)"
proof -
  from assms have d: "\<not> alive g" "results g = []" by (simp_all add: gen_inv_def)
  from d assms show "delivered (thread_step g) = delivered g \<and> 0 < stops (thread_step g)"
    by (simp add: thread_step_dead)
  from assms d have "pc g \<noteq> GetItem" by (auto simp: gen_inv_def)
  with d assms show "delivered (next_step g) = delivered g \<and> 0 < stops (next_step g)"
    by (cases "pc g") (simp_all add: next_step_def)
qed

lemma ended_run:
  "gen_inv p H g \<Longrightarrow> 0 < stops g \<Longrightarrow>
   delivered (run_schedule sched g) = delivered g \<and> 0 < stops (run_schedule sched g)"
proof (induction sched g rule: run_schedule.induct)
  case (1 g)
  then show ?case by simp
next
  case (2 ts g)
  from ended_step(1) [OF 2(2) 2(3)] 2(1) [OF gen_inv_thread_step [OF 2(2)]]
  show ?case by simp
next
  case (3 ts g)
  from ended_step(2) [OF 3(2) 3(3)] 3(1) [OF gen_inv_next_step [OF 3(2)]]
  show ?case by simp
qed

text \<open>The thread finishes: more steps than events are left end it.\<close>

lemma thread_dead_stays: "\<not> alive g \<Longrightarrow> \<not> alive (run_schedule (replicate n ThreadRuns) g)"
  by (induction n arbitrary: g) (simp_all add: thread_step_dead)

lemma thread_step_progress:
  "alive (thread_step g) \<Longrightarrow> length (pending (thread_step g)) < length (pending g)"
  by (auto simp: thread_step_def split: if_splits list.splits search_event.splits)

lemma thread_finishes:
  "length (pending g) < n \<Longrightarrow> \<not> alive (run_schedule (replicate n ThreadRuns) g)"
proof (induction n arbitrary: g)
  case 0
  then show ?case by simp
next
  case (Suc n)
  show ?case
  proof (cases "alive (thread_step g)")
    case False
    then show ?thesis by (simp add: thread_dead_stays)
  next
    case True
    from thread_step_progress [OF True] Suc.prems
    have "length (pending (thread_step g)) < n" by simp
    from Suc.IH [OF this] show ?thesis by simp
  qed
qed

lemma consumer_keeps_dead:
  "\<not> alive g \<Longrightarrow> \<not> alive (run_schedule (replicate k ConsumerRuns) g)"
  by (induction k arbitrary: g) (simp_all add: next_step_frame)

text \<open>With the thread finished, the consumer drains the queue and then ends.\<close>

lemma idle_drains:
  "\<not> alive g \<Longrightarrow> pc g = Idle \<Longrightarrow> length (results g) = n \<Longrightarrow>
   0 < stops (run_schedule (replicate (3 * n + 4) ConsumerRuns) g)"
proof (induction n arbitrary: g)
  case 0
  then have r: "results g = []" by simp
  have "run_schedule (replicate 4 ConsumerRuns) g
          = next_step (next_step (next_step (next_step g)))"
    by (simp add: eval_nat_numeral)
  with 0 r show ?case by (simp add: next_step_at)
next
  case (Suc n)
  then obtain x xs where r: "results g = x # xs" by (cases "results g") auto
  let ?g = "next_step (next_step (next_step g))"
  have e: "?g = g\<lparr> results := xs, delivered := delivered g @ [x], pc := Idle \<rparr>"
    using Suc.prems r by (simp add: next_step_at)
  have "3 * Suc n + 4 = Suc (Suc (Suc (3 * n + 4)))" by simp
  then have "replicate (3 * Suc n + 4) ConsumerRuns
          = ConsumerRuns # ConsumerRuns # ConsumerRuns # replicate (3 * n + 4) ConsumerRuns"
    by (simp only: replicate_Suc)
  then have "run_schedule (replicate (3 * Suc n + 4) ConsumerRuns) g
          = run_schedule (replicate (3 * n + 4) ConsumerRuns) ?g"
    by (simp only: run_schedule.simps)
  moreover have "0 < stops (run_schedule (replicate (3 * n + 4) ConsumerRuns) ?g)"
    using Suc.prems r by (intro Suc.IH) (simp_all add: e)
  ultimately show ?case by simp
qed

lemma reaches_idle_or_ended:
  assumes "gen_inv p H g" "\<not> alive g"
  shows "\<exists>k. pc (run_schedule (replicate k ConsumerRuns) g) = Idle
            \<or> 0 < stops (run_schedule (replicate k ConsumerRuns) g)"
proof (cases "pc g")
  case Idle
  then have "pc (run_schedule (replicate 0 ConsumerRuns) g) = Idle" by simp
  then show ?thesis by blast
next
  case Ended
  with assms have "0 < stops (run_schedule (replicate 0 ConsumerRuns) g)"
    by (simp add: gen_inv_def)
  then show ?thesis by blast
next
  case GetItem
  with assms obtain x xs where "results g = x # xs"
    by (cases "results g") (auto simp: gen_inv_def)
  with GetItem have "pc (run_schedule (replicate 1 ConsumerRuns) g) = Idle"
    by (simp add: next_step_at)
  then show ?thesis by blast
next
  case CheckQueue
  show ?thesis
  proof (cases "results g")
    case Nil
    with CheckQueue assms have "0 < stops (next_step (next_step (next_step g)))"
      by (simp add: next_step_at)
    then have "0 < stops (run_schedule (replicate 3 ConsumerRuns) g)"
      by (simp add: eval_nat_numeral)
    then show ?thesis by blast
  next
    case (Cons x xs)
    with CheckQueue have "pc (next_step (next_step g)) = Idle"
      by (simp add: next_step_at)
    then have "pc (run_schedule (replicate 2 ConsumerRuns) g) = Idle"
      by (simp add: eval_nat_numeral)
    then show ?thesis by blast
  qed
next
  case CheckAlive
  show ?thesis
  proof (cases "results g")
    case Nil
    with CheckAlive assms have "0 < stops (next_step (next_step g))"
      by (simp add: next_step_at)
    then have "0 < stops (run_schedule (replicate 2 ConsumerRuns) g)"
      by (simp add: eval_nat_numeral)
    then show ?thesis by blast
  next
    case (Cons x xs)
    with CheckAlive assms have "pc (next_step (next_step (next_step (next_step g)))) = Idle"
      by (simp add: next_step_at)
    then have "pc (run_schedule (replicate 4 ConsumerRuns) g) = Idle"
      by (simp add: eval_nat_numeral)
    then show ?thesis by blast
  qed
next
  case CheckEmpty
  show ?thesis
  proof (cases "results g")
    case Nil
    with CheckEmpty have "0 < stops (next_step g)"
      by (simp add: next_step_at)
    then have "0 < stops (run_schedule (replicate 1 ConsumerRuns) g)" by simp
    then show ?thesis by blast
  next
    case (Cons x xs)
    with CheckEmpty have "pc (next_step (next_step (next_step g))) = Idle"
      by (simp add: next_step_at)
    then have "pc (run_schedule (replicate 3 ConsumerRuns) g) = Idle"
      by (simp add: eval_nat_numeral)
    then show ?thesis by blast
  qed
qed

lemma consumer_ends_when_thread_dead:
  assumes "gen_inv p H g" "\<not> alive g"
  shows "\<exists>k. 0 < stops (run_schedule (replicate k ConsumerRuns) g)"
proof -
  from reaches_idle_or_ended [OF assms] obtain k where
    k: "pc (run_schedule (replicate k ConsumerRuns) g) = Idle
        \<or> 0 < stops (run_schedule (replicate k ConsumerRuns) g)" by blast
  let ?g = "run_schedule (replicate k ConsumerRuns) g"
  show ?thesis
  proof (cases "0 < stops ?g")
    case True
    then show ?thesis by blast
  next
    case False
    with k have i: "pc ?g = Idle" by simp
    have d: "\<not> alive ?g" using assms(2) by (rule consumer_keeps_dead)
    from idle_drains [OF d i refl]
    have "0 < stops (run_schedule (replicate (3 * length (results ?g) + 4) ConsumerRuns) ?g)" .
    then have "0 < stops (run_schedule
        (replicate (k + (3 * length (results ?g) + 4)) ConsumerRuns) g)"
      by (simp only: replicate_add run_schedule_append)
    then show ?thesis by blast
  qed
qed


text \<open>
  C6. In every interleaving of the search thread and the consumer: the values
  \<^verbatim>\<open>__next__\<close> has returned, followed by the queue, followed by what the running
  search will still publish, are the published matches in publication order; while the
  queue is empty and the thread is alive \<^verbatim>\<open>__next__\<close> stays in its loop, and with a
  match queued it returns the oldest one; StopIteration is raised only when the thread
  has completed and the queue is empty, and then every published match has been
  delivered; after that nothing is ever delivered again and each further call raises
  StopIteration again; and the sequence does end: once the thread has had enough steps
  to finish, enough steps of the consumer raise StopIteration.
\<close>

theorem queue_generator_delivers_in_order_then_ends:
  assumes g: "g = run_schedule sched (QueueGenerator scan progress)"
  shows
  "delivered g @ results g @ (if alive g then publishes progress (pending g) else [])
      = publishes progress scan
   \<and> (0 < stops g \<longrightarrow> \<not> alive g \<and> results g = [] \<and> delivered g = publishes progress scan)
   \<and> ((pc g = CheckQueue \<or> pc g = CheckAlive) \<and> results g = [] \<and> alive g \<longrightarrow>
        (pc (next_step g) = CheckQueue \<or> pc (next_step g) = CheckAlive)
        \<and> delivered (next_step g) = delivered g \<and> stops (next_step g) = stops g)
   \<and> (pc g = CheckQueue \<and> results g \<noteq> [] \<longrightarrow>
        pc (next_step (next_step g)) = Idle
        \<and> delivered (next_step (next_step g)) = delivered g @ [hd (results g)]
        \<and> results (next_step (next_step g)) = tl (results g))
   \<and> (0 < stops g \<longrightarrow>
        delivered (run_schedule later g) = delivered g \<and> 0 < stops (run_schedule later g))
   \<and> (pc g = Ended \<longrightarrow>
        pc (run_schedule (replicate 4 ConsumerRuns) g) = Ended
        \<and> stops (run_schedule (replicate 4 ConsumerRuns) g) = stops g + 1
        \<and> delivered (run_schedule (replicate 4 ConsumerRuns) g) = delivered g)
   \<and> (\<exists>n k. 0 < stops (run_schedule (replicate k ConsumerRuns)
                          (run_schedule (replicate n ThreadRuns) g)))"
proof -
  let ?H = "publishes progress scan"
  have i: "gen_inv progress ?H g"
    unfolding g by (rule gen_inv_run [OF gen_inv_init])
  have a: "delivered g @ results g @ (if alive g then publishes progress (pending g) else []) = ?H"
    using i by (simp add: gen_inv_def)
  have b: "0 < stops g \<longrightarrow> \<not> alive g \<and> results g = [] \<and> delivered g = ?H"
    using i by (auto simp: gen_inv_def)
  have c: "(pc g = CheckQueue \<or> pc g = CheckAlive) \<and> results g = [] \<and> alive g \<longrightarrow>
        (pc (next_step g) = CheckQueue \<or> pc (next_step g) = CheckAlive)
        \<and> delivered (next_step g) = delivered g \<and> stops (next_step g) = stops g"
    by (auto simp: next_step_at)
  have c': "pc g = CheckQueue \<and> results g \<noteq> [] \<longrightarrow>
        pc (next_step (next_step g)) = Idle
        \<and> delivered (next_step (next_step g)) = delivered g @ [hd (results g)]
        \<and> results (next_step (next_step g)) = tl (results g)"
  proof
    assume h: "pc g = CheckQueue \<and> results g \<noteq> []"
    then obtain x xs where r: "results g = x # xs" by (cases "results g") auto
    from h r show "pc (next_step (next_step g)) = Idle
        \<and> delivered (next_step (next_step g)) = delivered g @ [hd (results g)]
        \<and> results (next_step (next_step g)) = tl (results g)"
      by (simp add: next_step_at)
  qed
  have d: "0 < stops g \<longrightarrow>
        delivered (run_schedule later g) = delivered g \<and> 0 < stops (run_schedule later g)"
    using ended_run [OF i] by blast
  have d': "pc g = Ended \<longrightarrow>
        pc (run_schedule (replicate 4 ConsumerRuns) g) = Ended
        \<and> stops (run_schedule (replicate 4 ConsumerRuns) g) = stops g + 1
        \<and> delivered (run_schedule (replicate 4 ConsumerRuns) g) = delivered g"
  proof
    assume e: "pc g = Ended"
    with i have "\<not> alive g" "results g = []" by (simp_all add: gen_inv_def)
    moreover have "run_schedule (replicate 4 ConsumerRuns) g
          = next_step (next_step (next_step (next_step g)))"
      by (simp add: eval_nat_numeral)
    ultimately show "pc (run_schedule (replicate 4 ConsumerRuns) g) = Ended
        \<and> stops (run_schedule (replicate 4 ConsumerRuns) g) = stops g + 1
        \<and> delivered (run_schedule (replicate 4 ConsumerRuns) g) = delivered g"
      using e by (simp add: next_step_at)
  qed
  have e: "\<exists>n k. 0 < stops (run_schedule (replicate k ConsumerRuns)
                          (run_schedule (replicate n ThreadRuns) g))"
  proof -
    let ?n = "Suc (length (pending g))"
    let ?g = "run_schedule (replicate ?n ThreadRuns) g"
    have dead: "\<not> alive ?g" by (rule thread_finishes) simp
    have inv: "gen_inv progress ?H ?g" by (rule gen_inv_run [OF i])
    from consumer_ends_when_thread_dead [OF inv dead] show ?thesis by blast
  qed
  from a b c c' d d' e show ?thesis by blast
qed

lemma example_run:
  "run_schedule
     ([ThreadRuns, ConsumerRuns, ConsumerRuns, ConsumerRuns, ThreadRuns, ThreadRuns, ThreadRuns,
       ThreadRuns] @ replicate 10 ConsumerRuns)
     (QueueGenerator (example_scan 0x1000 0x3000 [0x41] FindCaseSensitive) (\<lambda>cur tot. True))
   = \<lparr> pending = [], progress_cb = (\<lambda>cur tot. True), alive = False, results = [], pc = Ended,
       delivered = [(0x1000, [0x41]), (0x1004, [0x41]), (0x2008, [0x41])], stops = 1 \<rparr>"
  by (simp add: eval_nat_numeral QueueGenerator_def example_scan_def thread_step_def next_step_def)

theorem queue_generator_witness:
  "stops (run_schedule
     ([ThreadRuns, ConsumerRuns, ConsumerRuns, ConsumerRuns, ThreadRuns, ThreadRuns, ThreadRuns,
       ThreadRuns] @ replicate 10 ConsumerRuns)
     (QueueGenerator (example_scan 0x1000 0x3000 [0x41] FindCaseSensitive) (\<lambda>cur tot. True))) = 1
   \<and> delivered (run_schedule
     ([ThreadRuns, ConsumerRuns, ConsumerRuns, ConsumerRuns, ThreadRuns, ThreadRuns, ThreadRuns,
       ThreadRuns] @ replicate 10 ConsumerRuns)
     (QueueGenerator (example_scan 0x1000 0x3000 [0x41] FindCaseSensitive) (\<lambda>cur tot. True)))
     = publishes (\<lambda>cur tot. True) (example_scan 0x1000 0x3000 [0x41] FindCaseSensitive)
   \<and> publishes (\<lambda>cur tot. True) (example_scan 0x1000 0x3000 [0x41] FindCaseSensitive)
     = [(0x1000, [0x41]), (0x1004, [0x41]), (0x2008, [0x41])]"
  using queue_generator_delivers_in_order_then_ends [OF refl,
      of "[ThreadRuns, ConsumerRuns, ConsumerRuns, ConsumerRuns, ThreadRuns, ThreadRuns, ThreadRuns,
       ThreadRuns] @ replicate 10 ConsumerRuns"
      "example_scan 0x1000 0x3000 [0x41] FindCaseSensitive" "\<lambda>cur tot. True" "[]"]
  by (simp only: example_run) (simp add: example_scan_def)

section \<open>Analysis snapshots are fresh copies\<close>

lemma alloc_simps:
  "fst (alloc ob h) = next_id h"
  "next_id (snd (alloc ob h)) = Suc (next_id h)"
  "objs (snd (alloc ob h)) = (objs h)(next_id h \<mapsto> ob)"
  by (simp_all add: alloc_def)

lemma active_info_loop_effect:
  assumes "objs h l = Some (ListObj xs)" "l < next_id h"
  shows "next_id (active_info_loop arr idxs l h) = next_id h + length idxs
     \<and> objs (active_info_loop arr idxs l h) l
          = Some (ListObj (xs @ [next_id h ..< next_id h + length idxs]))
     \<and> (\<forall>j. j < next_id h \<and> j \<noteq> l \<longrightarrow> objs (active_info_loop arr idxs l h) j = objs h j)
     \<and> (\<forall>j. next_id h + length idxs \<le> j \<longrightarrow> objs (active_info_loop arr idxs l h) j = objs h j)
     \<and> (\<forall>k. k < length idxs \<longrightarrow>
           objs (active_info_loop arr idxs l h) (next_id h + k)
             = Some (ActiveAnalysisInfoObj (aai_func (arr ! (idxs ! k)))
                       (aai_analysisTime (arr ! (idxs ! k))) (aai_updateCount (arr ! (idxs ! k)))
                       (aai_submitCount (arr ! (idxs ! k)))))"
  using assms
proof (induction idxs arbitrary: h xs)
  case Nil
  then show ?case by simp
next
  case (Cons i rest)
  let ?ob = "ActiveAnalysisInfoObj (aai_func (arr ! i)) (aai_analysisTime (arr ! i))
               (aai_updateCount (arr ! i)) (aai_submitCount (arr ! i))"
  let ?n = "next_id h"
  let ?h2 = "list_append l ?n (snd (alloc ?ob h))"
  have step: "active_info_loop arr (i # rest) l h = active_info_loop arr rest l ?h2"
    by (simp add: alloc_def)
  from Cons.prems have ln: "l \<noteq> ?n" by simp
  have o2: "objs ?h2 = (objs h)(?n \<mapsto> ?ob, l \<mapsto> ListObj (xs @ [?n]))"
    using Cons.prems ln by (simp add: list_append_def alloc_simps)
  have n2: "next_id ?h2 = Suc ?n"
    using Cons.prems ln by (simp add: list_append_def alloc_simps)
  have p1: "objs ?h2 l = Some (ListObj (xs @ [?n]))" by (simp add: o2)
  have p2: "l < next_id ?h2" using Cons.prems n2 by simp
  note ih = Cons.IH [OF p1 p2]
  have a: "next_id (active_info_loop arr (i # rest) l h) = ?n + length (i # rest)"
    using ih n2 by (simp only: step) simp
  have upt: "[?n ..< ?n + length (i # rest)] = ?n # [Suc ?n ..< Suc ?n + length rest]"
  proof -
    have "?n < ?n + length (i # rest)" by simp
    from upt_conv_Cons [OF this] show ?thesis by simp
  qed
  have b: "objs (active_info_loop arr (i # rest) l h) l
          = Some (ListObj (xs @ [?n ..< ?n + length (i # rest)]))"
    using ih n2 by (simp only: step upt) simp
  have c: "\<forall>j. j < ?n \<and> j \<noteq> l \<longrightarrow> objs (active_info_loop arr (i # rest) l h) j = objs h j"
  proof (intro allI impI)
    fix j assume j: "j < ?n \<and> j \<noteq> l"
    with ih n2 have "objs (active_info_loop arr rest l ?h2) j = objs ?h2 j" by simp
    with j show "objs (active_info_loop arr (i # rest) l h) j = objs h j"
      by (simp only: step o2) simp
  qed
  have d: "\<forall>j. ?n + length (i # rest) \<le> j \<longrightarrow> objs (active_info_loop arr (i # rest) l h) j = objs h j"
  proof (intro allI impI)
    fix j assume j: "?n + length (i # rest) \<le> j"
    with ih n2 have "objs (active_info_loop arr rest l ?h2) j = objs ?h2 j" by simp
    with j Cons.prems show "objs (active_info_loop arr (i # rest) l h) j = objs h j"
      by (simp only: step o2) simp
  qed
  have e: "\<forall>k. k < length (i # rest) \<longrightarrow>
           objs (active_info_loop arr (i # rest) l h) (?n + k)
             = Some (ActiveAnalysisInfoObj (aai_func (arr ! ((i # rest) ! k)))
                       (aai_analysisTime (arr ! ((i # rest) ! k)))
                       (aai_updateCount (arr ! ((i # rest) ! k)))
                       (aai_submitCount (arr ! ((i # rest) ! k))))"
  proof (intro allI impI)
    fix k assume k: "k < length (i # rest)"
    show "objs (active_info_loop arr (i # rest) l h) (?n + k)
             = Some (ActiveAnalysisInfoObj (aai_func (arr ! ((i # rest) ! k)))
                       (aai_analysisTime (arr ! ((i # rest) ! k)))
                       (aai_updateCount (arr ! ((i # rest) ! k)))
                       (aai_submitCount (arr ! ((i # rest) ! k))))"
    proof (cases k)
      case 0
      from ih n2 ln have "objs (active_info_loop arr rest l ?h2) ?n = objs ?h2 ?n" by simp
      with 0 ln show ?thesis by (simp only: step o2) simp
    next
      case (Suc k')
      with k have "k' < length rest" by simp
      with ih n2 have "objs (active_info_loop arr rest l ?h2) (Suc ?n + k')
          = Some (ActiveAnalysisInfoObj (aai_func (arr ! (rest ! k')))
                       (aai_analysisTime (arr ! (rest ! k'))) (aai_updateCount (arr ! (rest ! k')))
                       (aai_submitCount (arr ! (rest ! k'))))" by simp
      with Suc show ?thesis by (simp only: step) simp
    qed
  qed
  from a b c d e show ?case by blast
qed


lemma analysis_info_effect:
  assumes ok: "heap_ok h"
  shows "\<exists>h'. analysis_info (Some info) h = (Inr (Suc (next_id h) + ai_count info), h')
     \<and> next_id h' = Suc (Suc (next_id h + ai_count info))
     \<and> objs h' (Suc (next_id h) + ai_count info)
          = Some (AnalysisInfoObj (ai_state info) (ai_analysisTime info) (next_id h))
     \<and> objs h' (next_id h) = Some (ListObj [Suc (next_id h) ..< Suc (next_id h) + ai_count info])
     \<and> (\<forall>k. k < ai_count info \<longrightarrow>
           objs h' (Suc (next_id h) + k)
             = Some (ActiveAnalysisInfoObj (aai_func (ai_activeInfo info ! k))
                       (aai_analysisTime (ai_activeInfo info ! k))
                       (aai_updateCount (ai_activeInfo info ! k))
                       (aai_submitCount (ai_activeInfo info ! k))))
     \<and> agree_below (next_id h) h h'
     \<and> heap_ok h'"
proof -
  let ?n = "next_id h"
  let ?c = "ai_count info"
  let ?h1 = "snd (alloc (ListObj []) h)"
  let ?h2 = "active_info_loop (ai_activeInfo info) [0..<?c] ?n ?h1"
  let ?ob = "AnalysisInfoObj (ai_state info) (ai_analysisTime info) ?n"
  let ?h3 = "snd (alloc ?ob ?h2)"
  have l1: "objs ?h1 ?n = Some (ListObj [])" by (simp add: alloc_simps)
  have l2: "?n < next_id ?h1" by (simp add: alloc_simps)
  note loop = active_info_loop_effect [OF l1 l2, of "ai_activeInfo info" "[0..<?c]"]
  have n1: "next_id ?h1 = Suc ?n" by (simp add: alloc_simps)
  have o1: "objs ?h1 = (objs h)(?n \<mapsto> ListObj [])" by (simp add: alloc_simps)
  have n2: "next_id ?h2 = Suc ?n + ?c" using loop n1 by simp
  have r: "analysis_info (Some info) h = (Inr (Suc ?n + ?c), ?h3)"
    using n2 by (simp add: analysis_info_def alloc_def)
  have n3: "next_id ?h3 = Suc (Suc (?n + ?c))" using n2 by (simp add: alloc_simps)
  have o3: "objs ?h3 = (objs ?h2)(Suc ?n + ?c \<mapsto> ?ob)" using n2 by (simp add: alloc_simps)
  have a: "objs ?h3 (Suc ?n + ?c) = Some ?ob" by (simp add: o3)
  have b: "objs ?h3 ?n = Some (ListObj [Suc ?n ..< Suc ?n + ?c])"
    using loop n1 by (simp add: o3)
  have c: "\<forall>k. k < ?c \<longrightarrow> objs ?h3 (Suc ?n + k)
             = Some (ActiveAnalysisInfoObj (aai_func (ai_activeInfo info ! k))
                       (aai_analysisTime (ai_activeInfo info ! k))
                       (aai_updateCount (ai_activeInfo info ! k))
                       (aai_submitCount (ai_activeInfo info ! k)))"
  proof (intro allI impI)
    fix k assume k: "k < ?c"
    with loop n1 have "objs ?h2 (Suc ?n + k)
             = Some (ActiveAnalysisInfoObj (aai_func (ai_activeInfo info ! ([0..<?c] ! k)))
                       (aai_analysisTime (ai_activeInfo info ! ([0..<?c] ! k)))
                       (aai_updateCount (ai_activeInfo info ! ([0..<?c] ! k)))
                       (aai_submitCount (ai_activeInfo info ! ([0..<?c] ! k))))"
      by simp
    with k show "objs ?h3 (Suc ?n + k)
             = Some (ActiveAnalysisInfoObj (aai_func (ai_activeInfo info ! k))
                       (aai_analysisTime (ai_activeInfo info ! k))
                       (aai_updateCount (ai_activeInfo info ! k))
                       (aai_submitCount (ai_activeInfo info ! k)))"
      by (simp add: o3)
  qed
  have d: "agree_below ?n h ?h3"
    unfolding agree_below_def
  proof (intro allI impI)
    fix j assume j: "j < ?n"
    with loop n1 have "objs ?h2 j = objs ?h1 j" by simp
    with j show "objs ?h3 j = objs h j" by (simp add: o3 o1)
  qed
  have e: "heap_ok ?h3"
    unfolding heap_ok_def
  proof (intro allI impI)
    fix j assume j: "next_id ?h3 \<le> j"
    with n3 have j': "Suc (Suc (?n + ?c)) \<le> j" by simp
    with loop n1 have "objs ?h2 j = objs ?h1 j" by simp
    with j' ok show "objs ?h3 j = None" by (simp add: o3 o1 heap_ok_def)
  qed
  from r n3 a b c d e show ?thesis by blast
qed

lemma analysis_info_agree:
  "heap_ok h \<Longrightarrow> agree_below (next_id h) h (snd (analysis_info info_ref h))
      \<and> heap_ok (snd (analysis_info info_ref h))"
proof (cases info_ref)
  case None
  assume "heap_ok h"
  with None show ?thesis by (simp add: analysis_info_def agree_below_def)
next
  case (Some info)
  assume "heap_ok h"
  from analysis_info_effect [OF this, of info] Some show ?thesis by auto
qed

lemma analysis_progress_effect:
  assumes ok: "heap_ok h"
  shows "analysis_progress p h = (next_id h, snd (analysis_progress p h))
     \<and> next_id (snd (analysis_progress p h)) = Suc (next_id h)
     \<and> objs (snd (analysis_progress p h)) (next_id h)
          = Some (AnalysisProgressObj (ap_state p) (ap_count p) (ap_total p))
     \<and> agree_below (next_id h) h (snd (analysis_progress p h))
     \<and> heap_ok (snd (analysis_progress p h))"
  using ok by (simp add: analysis_progress_def alloc_def agree_below_def heap_ok_def)

lemma read_analysis_info_stable:
  assumes "objs h r = Some (AnalysisInfoObj st t l)" "objs h l = Some (ListObj ids)"
    "r < n" "l < n" "\<forall>a \<in> set ids. a < n" "agree_below n h h'"
  shows "read_analysis_info h' r = read_analysis_info h r"
proof -
  from assms have "objs h' r = objs h r" "objs h' l = objs h l"
    by (simp_all add: agree_below_def)
  moreover have "map (read_active_info h') ids = map (read_active_info h) ids"
    using assms(5,6) by (simp add: read_active_info_def agree_below_def)
  ultimately show ?thesis using assms(1,2) by (simp add: read_analysis_info_def)
qed

lemma read_analysis_progress_stable:
  "r < n \<Longrightarrow> agree_below n h h' \<Longrightarrow> read_analysis_progress h' r = read_analysis_progress h r"
  by (simp add: read_analysis_progress_def agree_below_def)

lemma agree_below_mono: "agree_below n h h' \<Longrightarrow> m \<le> n \<Longrightarrow> agree_below m h h'"
  by (simp add: agree_below_def)


text \<open>
  C9. On a well-formed heap, with the core's \<open>count\<close> at most the length of its array:
  \<^verbatim>\<open>analysis_info\<close> returns a new \<^verbatim>\<open>AnalysisInfo\<close> object, one whose identity no
  object had before, and writes to no object that existed before the call; what a caller
  reads from it (state, analysis time, and per entry of the new list the function handle,
  analysis time, update count and submit count) are the values of the core's structure
  at the call, \<open>count\<close> entries in array order; and that reading stays the same in every
  later heap in which the objects that existed when the call returned are unchanged, in
  particular after any later \<^verbatim>\<open>analysis_info\<close> or \<^verbatim>\<open>analysis_progress\<close> call,
  whatever the core's state is then. The same holds for \<^verbatim>\<open>analysis_progress\<close> and its
  state, count and total.
\<close>

theorem analysis_snapshots_are_fresh_copies:
  assumes ok: "heap_ok h" and cnt: "ai_count info \<le> length (ai_activeInfo info)"
  shows
  "(\<exists>r h'. analysis_info (Some info) h = (Inr r, h')
      \<and> objs h r = None \<and> agree_below (next_id h) h h' \<and> heap_ok h'
      \<and> read_analysis_info h' r
           = Some (ai_state info, ai_analysisTime info,
                   map (\<lambda>a. Some (aai_func a, aai_analysisTime a, aai_updateCount a, aai_submitCount a))
                       (take (ai_count info) (ai_activeInfo info)))
      \<and> (\<forall>h''. agree_below (next_id h') h' h'' \<longrightarrow>
             read_analysis_info h'' r = read_analysis_info h' r)
      \<and> (\<forall>later. read_analysis_info (snd (analysis_info later h')) r = read_analysis_info h' r)
      \<and> (\<forall>q. read_analysis_info (snd (analysis_progress q h')) r = read_analysis_info h' r))
   \<and> (\<exists>r h'. analysis_progress p h = (r, h')
      \<and> objs h r = None \<and> agree_below (next_id h) h h' \<and> heap_ok h'
      \<and> read_analysis_progress h' r = Some (ap_state p, ap_count p, ap_total p)
      \<and> (\<forall>h''. agree_below (next_id h') h' h'' \<longrightarrow>
             read_analysis_progress h'' r = read_analysis_progress h' r)
      \<and> (\<forall>later. read_analysis_progress (snd (analysis_info later h')) r
             = read_analysis_progress h' r)
      \<and> (\<forall>q. read_analysis_progress (snd (analysis_progress q h')) r
             = read_analysis_progress h' r))"
proof (intro conjI)
  let ?n = "next_id h"
  let ?c = "ai_count info"
  let ?r = "Suc ?n + ?c"
  let ?ids = "[Suc ?n ..< Suc ?n + ?c]"
  let ?fields = "\<lambda>a. Some (aai_func a, aai_analysisTime a, aai_updateCount a, aai_submitCount a)"
  from analysis_info_effect [OF ok, of info] obtain h' where
    r: "analysis_info (Some info) h = (Inr ?r, h')"
    and n': "next_id h' = Suc (Suc (?n + ?c))"
    and o: "objs h' ?r = Some (AnalysisInfoObj (ai_state info) (ai_analysisTime info) ?n)"
    and l: "objs h' ?n = Some (ListObj ?ids)"
    and e: "\<forall>k. k < ?c \<longrightarrow> objs h' (Suc ?n + k)
             = Some (ActiveAnalysisInfoObj (aai_func (ai_activeInfo info ! k))
                       (aai_analysisTime (ai_activeInfo info ! k))
                       (aai_updateCount (ai_activeInfo info ! k))
                       (aai_submitCount (ai_activeInfo info ! k)))"
    and ag: "agree_below ?n h h'" and ok': "heap_ok h'"
    by blast
  have fresh: "objs h ?r = None" using ok by (simp add: heap_ok_def)
  have entries: "map (read_active_info h') ?ids = map ?fields (take ?c (ai_activeInfo info))"
  proof (rule nth_equalityI)
    show "length (map (read_active_info h') ?ids) = length (map ?fields (take ?c (ai_activeInfo info)))"
      using cnt by (simp del: upt_Suc)
  next
    fix k assume "k < length (map (read_active_info h') ?ids)"
    then have k: "k < ?c" by (simp del: upt_Suc)
    with e have "read_active_info h' (Suc ?n + k) = ?fields (ai_activeInfo info ! k)"
      by (simp add: read_active_info_def)
    with k cnt show "map (read_active_info h') ?ids ! k = map ?fields (take ?c (ai_activeInfo info)) ! k"
      by (simp del: upt_Suc)
  qed
  have rd: "read_analysis_info h' ?r
           = Some (ai_state info, ai_analysisTime info, map ?fields (take ?c (ai_activeInfo info)))"
    using o l entries by (simp add: read_analysis_info_def)
  have below: "?r < next_id h'" "?n < next_id h'" "\<forall>a \<in> set ?ids. a < next_id h'"
    using n' by (simp_all del: upt_Suc)
  have st: "\<forall>h''. agree_below (next_id h') h' h'' \<longrightarrow>
             read_analysis_info h'' ?r = read_analysis_info h' ?r"
    using read_analysis_info_stable [OF o l below] by blast
  have st1: "\<forall>later. read_analysis_info (snd (analysis_info later h')) ?r = read_analysis_info h' ?r"
    using st analysis_info_agree [OF ok'] by blast
  have st2: "\<forall>q. read_analysis_info (snd (analysis_progress q h')) ?r = read_analysis_info h' ?r"
    using st analysis_progress_effect [OF ok'] by blast
  from r fresh ag ok' rd st st1 st2
  show "\<exists>r h'. analysis_info (Some info) h = (Inr r, h')
      \<and> objs h r = None \<and> agree_below (next_id h) h h' \<and> heap_ok h'
      \<and> read_analysis_info h' r
           = Some (ai_state info, ai_analysisTime info,
                   map ?fields (take (ai_count info) (ai_activeInfo info)))
      \<and> (\<forall>h''. agree_below (next_id h') h' h'' \<longrightarrow>
             read_analysis_info h'' r = read_analysis_info h' r)
      \<and> (\<forall>later. read_analysis_info (snd (analysis_info later h')) r = read_analysis_info h' r)
      \<and> (\<forall>q. read_analysis_info (snd (analysis_progress q h')) r = read_analysis_info h' r)"
    by blast
next
  let ?n = "next_id h"
  let ?h' = "snd (analysis_progress p h)"
  from analysis_progress_effect [OF ok, of p] have
    r: "analysis_progress p h = (?n, ?h')"
    and n': "next_id ?h' = Suc ?n"
    and o: "objs ?h' ?n = Some (AnalysisProgressObj (ap_state p) (ap_count p) (ap_total p))"
    and ag: "agree_below ?n h ?h'" and ok': "heap_ok ?h'"
    by simp_all
  have fresh: "objs h ?n = None" using ok by (simp add: heap_ok_def)
  have rd: "read_analysis_progress ?h' ?n = Some (ap_state p, ap_count p, ap_total p)"
    using o by (simp add: read_analysis_progress_def)
  have below: "?n < next_id ?h'" using n' by simp
  have st: "\<forall>h''. agree_below (next_id ?h') ?h' h'' \<longrightarrow>
             read_analysis_progress h'' ?n = read_analysis_progress ?h' ?n"
    using read_analysis_progress_stable [OF below] by blast
  have st1: "\<forall>later. read_analysis_progress (snd (analysis_info later ?h')) ?n
             = read_analysis_progress ?h' ?n"
    using st analysis_info_agree [OF ok'] by blast
  have st2: "\<forall>q. read_analysis_progress (snd (analysis_progress q ?h')) ?n
             = read_analysis_progress ?h' ?n"
    using st analysis_progress_effect [OF ok'] by blast
  from r fresh ag ok' rd st st1 st2
  show "\<exists>r h'. analysis_progress p h = (r, h')
      \<and> objs h r = None \<and> agree_below (next_id h) h h' \<and> heap_ok h'
      \<and> read_analysis_progress h' r = Some (ap_state p, ap_count p, ap_total p)
      \<and> (\<forall>h''. agree_below (next_id h') h' h'' \<longrightarrow>
             read_analysis_progress h'' r = read_analysis_progress h' r)
      \<and> (\<forall>later. read_analysis_progress (snd (analysis_info later h')) r
             = read_analysis_progress h' r)
      \<and> (\<forall>q. read_analysis_progress (snd (analysis_progress q h')) r
             = read_analysis_progress h' r)"
    by blast
qed

lemma empty_heap_ok: "heap_ok empty_heap"
  by (simp add: heap_ok_def empty_heap_def)

lemma example_info_count: "ai_count example_info \<le> length (ai_activeInfo example_info)"
  by (simp add: example_info_def)

lemma example_snapshot:
  "fst (analysis_info (Some example_info) empty_heap) = Inr 3"
  "read_analysis_info (snd (analysis_info (Some example_info) empty_heap)) 3
     = Some (AnalyzeState, 120, [Some (7, 30, 2, 1), Some (9, 45, 0, 3)])"
  "read_analysis_info
     (snd (analysis_info (Some example_info_later)
        (snd (analysis_info (Some example_info) empty_heap)))) 3
     = Some (AnalyzeState, 120, [Some (7, 30, 2, 1), Some (9, 45, 0, 3)])"
  "read_analysis_info
     (snd (analysis_info (Some example_info_later)
        (snd (analysis_info (Some example_info) empty_heap)))) 5
     = Some (IdleState, 300, [])"
  by code_simp+

theorem analysis_snapshot_witness:
  "heap_ok empty_heap
   \<and> ai_count example_info \<le> length (ai_activeInfo example_info)
   \<and> fst (analysis_info (Some example_info) empty_heap) = Inr 3
   \<and> read_analysis_info (snd (analysis_info (Some example_info) empty_heap)) 3
     = Some (AnalyzeState, 120, [Some (7, 30, 2, 1), Some (9, 45, 0, 3)])
   \<and> read_analysis_info
       (snd (analysis_info (Some example_info_later)
          (snd (analysis_info (Some example_info) empty_heap)))) 3
     = Some (AnalyzeState, 120, [Some (7, 30, 2, 1), Some (9, 45, 0, 3)])
   \<and> read_analysis_info
       (snd (analysis_info (Some example_info_later)
          (snd (analysis_info (Some example_info) empty_heap)))) 5
     = Some (IdleState, 300, [])"
  using analysis_snapshots_are_fresh_copies [OF empty_heap_ok example_info_count]
    empty_heap_ok example_info_count example_snapshot
  by simp

end
